theory Spec2Isabelle
  imports Main "HOL-Library.Word" "HOL-Library.Char_ord" "HOL-Library.List_Lexorder"
begin

section \<open>The Dellicius query planner (query\_planner.cc)\<close>

text \<open>
  The embedding follows \<^verbatim>\<open>ecclesia/lib/redfish/dellicius/engine/internal/query_planner.cc\<close>.
  The protobuf messages, the \<^verbatim>\<open>RedfishVariant\<close> interface, the \<^verbatim>\<open>Normalizer\<close> and the
  \<^verbatim>\<open>Clock\<close> are declared in files that are not part of the sources at hand; the
  planner only uses them through a handful of operations, which the model takes as
  parameters.
\<close>

subsection \<open>Messages\<close>

text \<open>
  \<^verbatim>\<open>DelliciusQuery::Subquery\<close> and \<^verbatim>\<open>DelliciusQuery\<close>: the planner reads
  \<^verbatim>\<open>subquery_id()\<close>, \<^verbatim>\<open>redpath()\<close>, \<^verbatim>\<open>query_id()\<close> and \<^verbatim>\<open>subquery()\<close>; the property
  list is only handed on to the normalizer.
\<close>

record Subquery =
  subquery_id :: string
  redpath :: string
  properties :: "string list"

record DelliciusQuery =
  query_id :: string
  subquery :: "Subquery list"

text \<open>
  \<^verbatim>\<open>DelliciusQueryResult\<close>: \<^verbatim>\<open>subquery_output_by_id\<close> is a protobuf map from the
  subquery id to a \<^verbatim>\<open>SubqueryOutput\<close>, whose repeated field \<^verbatim>\<open>data_set\<close> is the list of
  records. \<open>'r\<close> is the type of a normalized record (\<^verbatim>\<open>SubqueryDataSet\<close>), \<open>'t\<close> the
  type of a protobuf timestamp.
\<close>

record ('r, 't) DelliciusQueryResult =
  query_ids :: "string list"
  start_timestamp :: "'t option"
  end_timestamp :: "'t option"
  subquery_output_by_id :: "string \<rightharpoonup> 'r list"

subsection \<open>Path compilation\<close>

text \<open>\<^verbatim>\<open>absl::InvalidArgumentError\<close>, the only status \<^verbatim>\<open>GetNodeAndPredicate\<close> returns.\<close>

datatype status = InvalidArgumentError string

text \<open>
  What the C++ leaves undefined: reading through an iterator that is at the end of its
  vector, or that was never assigned.
\<close>

datatype fault = PastTheEnd | SingularIterator

definition kPredicateSelectAll :: string where
  "kPredicateSelectAll = ''*''"

definition ApplySelectAllFilter :: "'v \<Rightarrow> bool" where
  "ApplySelectAllFilter variant = True"

text \<open>
  \<^verbatim>\<open>string_view::find_first_of(char)\<close>: the index of the first occurrence, \<open>None\<close> for
  \<^verbatim>\<open>npos\<close>.
\<close>

fun find_first_of :: "string \<Rightarrow> char \<Rightarrow> nat option" where
  "find_first_of [] c = None"
| "find_first_of (x # xs) c =
     (if x = c then Some 0 else map_option Suc (find_first_of xs c))"

text \<open>
  \<^verbatim>\<open>string_view::substr(pos, n)\<close> for \<open>pos \<le> size\<close>: the characters from \<open>pos\<close>, at most
  \<open>n\<close> of them. Both calls below have \<open>pos \<le> size\<close> (lemma \<open>find_first_of_less\<close>), so
  the \<^verbatim>\<open>out_of_range\<close> exception of \<open>pos > size\<close> cannot occur.
\<close>

definition substr :: "string \<Rightarrow> nat \<Rightarrow> nat \<Rightarrow> string" where
  "substr s pos n = take n (drop pos s)"

text \<open>
  The length \<^verbatim>\<open>predicate_end - predicate_start - 1\<close> is computed in \<^verbatim>\<open>size_t\<close>, here 64
  bits wide: it wraps around when the first \<^verbatim>\<open>]\<close> is not after the first \<^verbatim>\<open>[\<close>.
\<close>

definition predicate_length :: "nat \<Rightarrow> nat \<Rightarrow> nat" where
  "predicate_length predicate_start predicate_end =
     unat ((word_of_nat predicate_end :: 64 word) - word_of_nat predicate_start - 1)"

definition GetNodeAndPredicate :: "string \<Rightarrow> status + (string \<times> string)" where
  "GetNodeAndPredicate step =
     (case find_first_of step CHR ''['' of
        None \<Rightarrow> Inl (InvalidArgumentError ''Invalid location step expression'')
      | Some predicate_start \<Rightarrow>
          (case find_first_of step CHR '']'' of
             None \<Rightarrow> Inl (InvalidArgumentError ''Invalid location step expression'')
           | Some predicate_end \<Rightarrow>
               (let predicate_expr =
                      substr step (predicate_start + 1)
                        (predicate_length predicate_start predicate_end);
                    node_name = substr step 0 predicate_start
                in Inr (node_name, predicate_expr))))"

text \<open>
  \<^verbatim>\<open>absl::StrSplit(text, d)\<close>: the pieces between the delimiters, empty ones included
  (the empty text gives one empty piece); \<^verbatim>\<open>absl::SkipEmpty()\<close> then drops the empty
  pieces.
\<close>

fun StrSplit :: "string \<Rightarrow> char \<Rightarrow> string list" where
  "StrSplit [] d = [[]]"
| "StrSplit (c # cs) d =
     (if c = d then [] # StrSplit cs d
      else (case StrSplit cs d of
              [] \<Rightarrow> [[c]]
            | piece # pieces \<Rightarrow> (c # piece) # pieces))"

definition SkipEmpty :: "string list \<Rightarrow> string list" where
  "SkipEmpty pieces = filter (\<lambda>piece. piece \<noteq> []) pieces"

subsection \<open>Subquery handles\<close>

text \<open>
  \<^verbatim>\<open>QueryPlanner::SubqueryHandle\<close>. The members \<^verbatim>\<open>subquery_\<close>, \<^verbatim>\<open>is_redpath_valid_\<close>,
  \<^verbatim>\<open>steps_in_redpath_\<close> and \<^verbatim>\<open>iter_\<close> lose their trailing underscore (\<open>subquery_\<close> is
  named after its accessor). The iterator \<^verbatim>\<open>iter_\<close> into \<^verbatim>\<open>steps_in_redpath_\<close> is the
  index it points at: \<open>Some (length steps)\<close> is \<^verbatim>\<open>end()\<close>, and \<open>None\<close> is the iterator
  that the constructor never assigned. \<open>'v\<close> is the type of a \<^verbatim>\<open>RedfishVariant\<close>.
\<close>

record 'v SubqueryHandle =
  GetSubquery :: Subquery
  is_redpath_valid :: bool
  steps_in_redpath :: "(string \<times> ('v \<Rightarrow> bool)) list"
  iter :: "nat option"

text \<open>
  The loop of the constructor over the step expressions: the steps compiled so far,
  and whether the loop ran to its end (each \<^verbatim>\<open>return\<close> inside the loop leaves the
  constructor with \<^verbatim>\<open>is_redpath_valid_\<close> still false).
\<close>

fun compile_steps ::
  "string list \<Rightarrow> (string \<times> ('v \<Rightarrow> bool)) list \<Rightarrow> (string \<times> ('v \<Rightarrow> bool)) list \<times> bool"
where
  "compile_steps [] steps = (steps, True)"
| "compile_steps (step_expression # rest) steps =
     (case GetNodeAndPredicate step_expression of
        Inl e \<Rightarrow> (steps, False)
      | Inr (node_name, predicate) \<Rightarrow>
          if predicate = kPredicateSelectAll
          then compile_steps rest (steps @ [(node_name, ApplySelectAllFilter)])
          else (steps, False))"

definition SubqueryHandle :: "Subquery \<Rightarrow> 'v SubqueryHandle" where
  "SubqueryHandle sq =
     (case compile_steps (SkipEmpty (StrSplit (redpath sq) CHR ''/'')) [] of
        (steps, completed) \<Rightarrow>
          \<lparr>GetSubquery = sq,
           is_redpath_valid = completed,
           steps_in_redpath = steps,
           iter = (if completed then Some 0 else None)\<rparr>)"

text \<open>Reading \<^verbatim>\<open>*iter_\<close>: the step the iterator points at.\<close>

definition deref :: "'v SubqueryHandle \<Rightarrow> fault + (string \<times> ('v \<Rightarrow> bool))" where
  "deref h =
     (case iter h of
        None \<Rightarrow> Inl SingularIterator
      | Some i \<Rightarrow>
          if i < length (steps_in_redpath h) then Inr (steps_in_redpath h ! i)
          else Inl PastTheEnd)"

definition NextNodeInRedpath :: "'v SubqueryHandle \<Rightarrow> fault + string option" where
  "NextNodeInRedpath h =
     (if is_redpath_valid h
      then (case deref h of Inl e \<Rightarrow> Inl e | Inr step \<Rightarrow> Inr (Some (fst step)))
      else Inr None)"

datatype PredicateReturnValue = kEndByPredicate | kEndOfRedpath | kContinue

text \<open>
  \<^verbatim>\<open>FilterNodeSet\<close> returns the status and, since it advances \<^verbatim>\<open>iter_\<close>, the handle
  after the call.
\<close>

definition FilterNodeSet ::
  "'v SubqueryHandle \<Rightarrow> 'v \<Rightarrow> fault + (PredicateReturnValue \<times> 'v SubqueryHandle)"
where
  "FilterNodeSet h redfish_variant =
     (case deref h of
        Inl e \<Rightarrow> Inl e
      | Inr step \<Rightarrow>
          (let is_filter_success = snd step redfish_variant in
           if \<not> is_filter_success then Inr (kEndByPredicate, h)
           else if steps_in_redpath h \<noteq> [] \<and> fst step = fst (last (steps_in_redpath h))
           then Inr (kEndOfRedpath, h)
           else Inr (kContinue, h\<lparr>iter := map_option Suc (iter h)\<rparr>)))"

subsection \<open>The planner\<close>

text \<open>
  \<^verbatim>\<open>QueryPlanner\<close>: the plan id and the active handles. The constructor skips every
  handle whose \<^verbatim>\<open>NextNodeInRedpath()\<close> is \<^verbatim>\<open>nullopt\<close>.
\<close>

record 'v QueryPlanner =
  plan_id :: string
  subquery_handles :: "'v SubqueryHandle list"

fun collect_handles ::
  "Subquery list \<Rightarrow> 'v SubqueryHandle list \<Rightarrow> fault + 'v SubqueryHandle list"
where
  "collect_handles [] handles = Inr handles"
| "collect_handles (sq # rest) handles =
     (let subquery_handle = SubqueryHandle sq in
      case NextNodeInRedpath subquery_handle of
        Inl e \<Rightarrow> Inl e
      | Inr None \<Rightarrow> collect_handles rest handles
      | Inr (Some node_name) \<Rightarrow> collect_handles rest (handles @ [subquery_handle]))"

definition QueryPlanner :: "DelliciusQuery \<Rightarrow> fault + 'v QueryPlanner" where
  "QueryPlanner query =
     (case collect_handles (subquery query) [] of
        Inl e \<Rightarrow> Inl e
      | Inr handles \<Rightarrow> Inr \<lparr>plan_id = query_id query, subquery_handles = handles\<rparr>)"

subsection \<open>The Redfish interface, the normalizer and the state of a run\<close>

text \<open>
  The operations of \<^verbatim>\<open>RedfishVariant\<close> that the planner calls: \<^verbatim>\<open>var[name]\<close>,
  \<^verbatim>\<open>AsObject()\<close> (true when the pointer it returns is not null) and \<^verbatim>\<open>AsIterable()\<close>
  (\<open>None\<close> for a null pointer, otherwise the members in iteration order).
\<close>

record 'v RedfishVariant_ops =
  Get :: "'v \<Rightarrow> string \<Rightarrow> 'v"
  AsObject :: "'v \<Rightarrow> bool"
  AsIterable :: "'v \<Rightarrow> 'v list option"

text \<open>
  A run mutates the \<^verbatim>\<open>DelliciusQueryResult\<close> it is given. Besides the result, the state
  keeps the sequence of child lookups \<^verbatim>\<open>var[resource_name]\<close> issued so far, each with
  the variant it was issued on: these are the requests that reach the transport.
\<close>

record ('v, 'r, 't) execution =
  result :: "('r, 't) DelliciusQueryResult"
  fetched :: "('v \<times> string) list"

subsection \<open>Deduplication\<close>

text \<open>
  \<^verbatim>\<open>NodeToSubqueryHandles\<close> is a \<^verbatim>\<open>std::map\<close> from the node name to a vector of handles,
  iterated in the order of its keys: an association list kept sorted by key.
  \<open>push_back k h m\<close> is \<^verbatim>\<open>m[k].push_back(h)\<close>.
\<close>

fun push_back ::
  "string \<Rightarrow> 'h \<Rightarrow> (string \<times> 'h list) list \<Rightarrow> (string \<times> 'h list) list"
where
  "push_back k h [] = [(k, [h])]"
| "push_back k h ((k', hs) # rest) =
     (if k = k' then (k', hs @ [h]) # rest
      else if k < k' then (k, [h]) # (k', hs) # rest
      else (k', hs) # push_back k h rest)"

fun DeduplicateExpression_loop ::
  "'v SubqueryHandle list \<Rightarrow> (string \<times> 'v SubqueryHandle list) list
   \<Rightarrow> fault + (string \<times> 'v SubqueryHandle list) list"
where
  "DeduplicateExpression_loop [] node_to_subquery = Inr node_to_subquery"
| "DeduplicateExpression_loop (subquery_handle # rest) node_to_subquery =
     (case NextNodeInRedpath subquery_handle of
        Inl e \<Rightarrow> Inl e
      | Inr None \<Rightarrow> DeduplicateExpression_loop rest node_to_subquery
      | Inr (Some node_name) \<Rightarrow>
          DeduplicateExpression_loop rest
            (push_back node_name subquery_handle node_to_subquery))"

text \<open>The parameters \<^verbatim>\<open>var\<close> and \<^verbatim>\<open>result\<close> of the C++ function are not used by it.\<close>

definition DeduplicateExpression ::
  "'v SubqueryHandle list \<Rightarrow> fault + (string \<times> 'v SubqueryHandle list) list"
where
  "DeduplicateExpression handles = DeduplicateExpression_loop handles []"

subsection \<open>Qualification and dispatch\<close>

text \<open>
  \<^verbatim>\<open>(*subquery_output)[id].mutable_data_set()->Add(data)\<close>: the bucket of the id is
  created empty when it is missing, and the record is appended to it.
\<close>

definition add_data_set ::
  "string \<Rightarrow> 'r \<Rightarrow> ('r, 't) DelliciusQueryResult \<Rightarrow> ('r, 't) DelliciusQueryResult"
where
  "add_data_set sid normalized_data res =
     res\<lparr>subquery_output_by_id :=
       (subquery_output_by_id res)
         (sid \<mapsto> (case subquery_output_by_id res sid of None \<Rightarrow> [] | Some ds \<Rightarrow> ds)
                  @ [normalized_data])\<rparr>"

text \<open>
  The loop of \<^verbatim>\<open>QualifyEachSubquery\<close> over its own copy of the handles; the normalizer
  is \<^verbatim>\<open>normalizer->Normalize\<close>, \<open>None\<close> when the status it returns is not ok.
\<close>

fun QualifyEachSubquery_loop ::
  "('v \<Rightarrow> Subquery \<Rightarrow> 'r option) \<Rightarrow> 'v \<Rightarrow> 'v SubqueryHandle list \<Rightarrow> 'v SubqueryHandle list
   \<Rightarrow> ('v, 'r, 't) execution \<Rightarrow> fault + ('v SubqueryHandle list \<times> ('v, 'r, 't) execution)"
where
  "QualifyEachSubquery_loop normalizer var [] qualified_subqueries st =
     Inr (qualified_subqueries, st)"
| "QualifyEachSubquery_loop normalizer var (subquery_handle # rest) qualified_subqueries st =
     (case FilterNodeSet subquery_handle var of
        Inl e \<Rightarrow> Inl e
      | Inr (status, subquery_handle') \<Rightarrow>
          if status = kEndOfRedpath then
            (let sq = GetSubquery subquery_handle' in
             case normalizer var sq of
               Some normalized_data \<Rightarrow>
                 QualifyEachSubquery_loop normalizer var rest qualified_subqueries
                   (st\<lparr>result := add_data_set (subquery_id sq) normalized_data (result st)\<rparr>)
             | None \<Rightarrow> QualifyEachSubquery_loop normalizer var rest qualified_subqueries st)
          else if status = kContinue then
            QualifyEachSubquery_loop normalizer var rest
              (qualified_subqueries @ [subquery_handle']) st
          else QualifyEachSubquery_loop normalizer var rest qualified_subqueries st)"

text \<open>The steps a handle has left, summed up for the termination of the recursion.\<close>

definition remaining :: "'v SubqueryHandle \<Rightarrow> nat" where
  "remaining h = (case iter h of None \<Rightarrow> 0 | Some i \<Rightarrow> length (steps_in_redpath h) - i)"

definition remaining_all :: "'v SubqueryHandle list \<Rightarrow> nat" where
  "remaining_all hs = sum_list (map remaining hs)"

definition remaining_groups :: "(string \<times> 'v SubqueryHandle list) list \<Rightarrow> nat" where
  "remaining_groups gs = sum_list (map (\<lambda>g. remaining_all (snd g)) gs)"

text \<open>
  \<^verbatim>\<open>RunRecursive\<close>, \<^verbatim>\<open>Dispatch\<close> and \<^verbatim>\<open>QualifyEachSubquery\<close> call each other.
  \<open>Dispatch\<close> recurses over the entries of the map, \<open>Dispatch_members\<close> is its inner
  loop over the members of a collection. \<^verbatim>\<open>QualifyEachSubquery\<close> takes its handles by
  value, so each call works on the handles as the caller has them.
\<close>

function (sequential)
  RunRecursive ::
    "'v RedfishVariant_ops \<Rightarrow> ('v \<Rightarrow> Subquery \<Rightarrow> 'r option) \<Rightarrow> 'v \<Rightarrow> 'v SubqueryHandle list
     \<Rightarrow> ('v, 'r, 't) execution \<Rightarrow> fault + ('v, 'r, 't) execution"
and Dispatch ::
    "'v RedfishVariant_ops \<Rightarrow> ('v \<Rightarrow> Subquery \<Rightarrow> 'r option) \<Rightarrow> 'v
     \<Rightarrow> (string \<times> 'v SubqueryHandle list) list
     \<Rightarrow> ('v, 'r, 't) execution \<Rightarrow> fault + ('v, 'r, 't) execution"
and Dispatch_members ::
    "'v RedfishVariant_ops \<Rightarrow> ('v \<Rightarrow> Subquery \<Rightarrow> 'r option) \<Rightarrow> 'v list \<Rightarrow> 'v SubqueryHandle list
     \<Rightarrow> ('v, 'r, 't) execution \<Rightarrow> fault + ('v, 'r, 't) execution"
and QualifyEachSubquery ::
    "'v RedfishVariant_ops \<Rightarrow> ('v \<Rightarrow> Subquery \<Rightarrow> 'r option) \<Rightarrow> 'v \<Rightarrow> 'v SubqueryHandle list
     \<Rightarrow> ('v, 'r, 't) execution \<Rightarrow> fault + ('v, 'r, 't) execution"
where
  "RunRecursive ops normalizer variant handles st =
     (case DeduplicateExpression handles of
        Inl e \<Rightarrow> Inl e
      | Inr node_to_subquery \<Rightarrow>
          if node_to_subquery = [] then Inr st
          else Dispatch ops normalizer variant node_to_subquery st)"
| "Dispatch ops normalizer var [] st = Inr st"
| "Dispatch ops normalizer var ((resource_name, handles) # rest) st =
     (let variant = Get ops var resource_name;
          st1 = st\<lparr>fetched := fetched st @ [(var, resource_name)]\<rparr>
      in if \<not> AsObject ops variant then Dispatch ops normalizer var rest st1
         else (case AsIterable ops variant of
                 Some collection \<Rightarrow>
                   (case Dispatch_members ops normalizer collection handles st1 of
                      Inl e \<Rightarrow> Inl e
                    | Inr st2 \<Rightarrow> Dispatch ops normalizer var rest st2)
               | None \<Rightarrow>
                   (case QualifyEachSubquery ops normalizer variant handles st1 of
                      Inl e \<Rightarrow> Inl e
                    | Inr st2 \<Rightarrow> Dispatch ops normalizer var rest st2)))"
| "Dispatch_members ops normalizer [] handles st = Inr st"
| "Dispatch_members ops normalizer (member # rest) handles st =
     (case QualifyEachSubquery ops normalizer member handles st of
        Inl e \<Rightarrow> Inl e
      | Inr st' \<Rightarrow> Dispatch_members ops normalizer rest handles st')"
| "QualifyEachSubquery ops normalizer var handles st =
     (case QualifyEachSubquery_loop normalizer var handles [] st of
        Inl e \<Rightarrow> Inl e
      | Inr (qualified_subqueries, st') \<Rightarrow>
          if qualified_subqueries = [] then Inr st'
          else RunRecursive ops normalizer var qualified_subqueries st')"
  by pat_completeness auto

text \<open>
  \<^verbatim>\<open>Run\<close>. \<open>clock k\<close> is the outcome of \<^verbatim>\<open>AbslTimeToProtoTime(clock.Now())\<close> at the
  \<open>k\<close>-th reading of the run (\<open>None\<close> when the conversion fails). The handles of the
  planner are passed by reference, but nothing on the way writes to them:
  \<^verbatim>\<open>DeduplicateExpression\<close> copies each handle into the map, so the planner is the same
  after the run.
\<close>

definition Run ::
  "'v RedfishVariant_ops \<Rightarrow> ('v \<Rightarrow> Subquery \<Rightarrow> 'r option) \<Rightarrow> 'v QueryPlanner \<Rightarrow> 'v
   \<Rightarrow> (nat \<Rightarrow> 't option) \<Rightarrow> ('v, 'r, 't) execution \<Rightarrow> fault + ('v, 'r, 't) execution"
where
  "Run ops normalizer planner variant clock st =
     (let st1 = (case clock 0 of
                   Some timestamp \<Rightarrow>
                     st\<lparr>result := (result st)\<lparr>start_timestamp := Some timestamp\<rparr>\<rparr>
                 | None \<Rightarrow> st);
          st2 = st1\<lparr>result :=
                  (result st1)\<lparr>query_ids := query_ids (result st1) @ [plan_id planner]\<rparr>\<rparr>
      in case RunRecursive ops normalizer variant (subquery_handles planner) st2 of
           Inl e \<Rightarrow> Inl e
         | Inr st3 \<Rightarrow>
             Inr (case clock 1 of
                    Some timestamp \<Rightarrow>
                      st3\<lparr>result := (result st3)\<lparr>end_timestamp := Some timestamp\<rparr>\<rparr>
                  | None \<Rightarrow> st3))"

subsection \<open>A resource tree for the examples\<close>

text \<open>
  Modelled from the spec: the implementations of \<^verbatim>\<open>RedfishVariant\<close> are not among the
  sources, so the examples run on a resource view with the capability set of the
  spec (\<open>is_object\<close>, \<open>is_iterable\<close>, \<open>child\<close>, \<open>iter\<close>): a node says whether it is an
  object, lists its members when it is iterable, and holds its named children. A
  Redfish collection is an object that is iterable; a JSON array is iterable and
  not an object; a child that is missing is neither.
\<close>

datatype resource =
  Resource (is_object: bool) (members: "resource list option")
    (children: "(string \<times> resource) list")

definition absent :: resource where
  "absent = Resource False None []"

definition child :: "resource \<Rightarrow> string \<Rightarrow> resource" where
  "child r name = (case map_of (children r) name of None \<Rightarrow> absent | Some c \<Rightarrow> c)"

definition resource_ops :: "resource RedfishVariant_ops" where
  "resource_ops = \<lparr>Get = child, AsObject = is_object, AsIterable = members\<rparr>"

definition empty_result :: "('r, 't) DelliciusQueryResult" where
  "empty_result =
     \<lparr>query_ids = [], start_timestamp = None, end_timestamp = None,
      subquery_output_by_id = Map.empty\<rparr>"

definition start :: "('v, 'r, 't) execution" where
  "start = \<lparr>result = empty_result, fetched = []\<rparr>"

text \<open>
  A service root with a collection of two chassis (only the first has a \<open>Status\<close>)
  and a JSON array of tags, the subqueries that the examples run on it, and a
  normalizer whose record is the matched resource itself.
\<close>

definition status_leaf :: resource where
  "status_leaf = Resource True None []"

definition chassis1 :: resource where
  "chassis1 = Resource True None [(''Status'', status_leaf)]"

definition chassis2 :: resource where
  "chassis2 = Resource True None []"

definition chassis_collection :: resource where
  "chassis_collection = Resource True (Some [chassis1, chassis2]) []"

definition tag_array :: resource where
  "tag_array = Resource False (Some [status_leaf]) []"

definition service_root :: resource where
  "service_root = Resource True None [(''Chassis'', chassis_collection), (''Tags'', tag_array)]"

definition sq_chassis :: Subquery where
  "sq_chassis = \<lparr>subquery_id = ''S1'', redpath = ''/Chassis[*]'', properties = [''Name'']\<rparr>"

definition sq_status :: Subquery where
  "sq_status = \<lparr>subquery_id = ''S2'', redpath = ''/Chassis[*]/Status[*]'', properties = [''State'']\<rparr>"

definition sq_tags :: Subquery where
  "sq_tags = \<lparr>subquery_id = ''S3'', redpath = ''/Tags[*]'', properties = []\<rparr>"

definition sq_reversed :: Subquery where
  "sq_reversed = \<lparr>subquery_id = ''S4'', redpath = ''/]Chassis[*'', properties = []\<rparr>"

definition sq_empty :: Subquery where
  "sq_empty = \<lparr>subquery_id = ''S5'', redpath = [], properties = []\<rparr>"

definition sq_revisit :: Subquery where
  "sq_revisit = \<lparr>subquery_id = ''S6'', redpath = ''/Chassis[*]/Links[*]/Chassis[*]'', properties = []\<rparr>"

definition sq_no_brackets :: Subquery where
  "sq_no_brackets = \<lparr>subquery_id = ''S7'', redpath = ''/Chassis*'', properties = []\<rparr>"

definition normalize_view :: "resource \<Rightarrow> Subquery \<Rightarrow> resource option" where
  "normalize_view var sq = Some var"

subsection \<open>Notions used in the statements\<close>

text \<open>
  Duplicating, in place, the elements of a list that satisfy a predicate; for handles
  the predicate is on the subquery of the handle, for the groups of the map it acts
  on each group. \<open>double_bucket\<close> repeats each record of one bucket of the result.
\<close>

definition twice_where :: "('a \<Rightarrow> bool) \<Rightarrow> 'a list \<Rightarrow> 'a list" where
  "twice_where P xs = concat (map (\<lambda>x. if P x then [x, x] else [x]) xs)"

definition twice_handles :: "(Subquery \<Rightarrow> bool) \<Rightarrow> 'v SubqueryHandle list \<Rightarrow> 'v SubqueryHandle list" where
  "twice_handles P hs = twice_where (\<lambda>h. P (GetSubquery h)) hs"

definition twice_groups ::
  "(Subquery \<Rightarrow> bool) \<Rightarrow> (string \<times> 'v SubqueryHandle list) list \<Rightarrow> (string \<times> 'v SubqueryHandle list) list" where
  "twice_groups P gs = map (\<lambda>g. (fst g, twice_handles P (snd g))) gs"

definition twice :: "'a list \<Rightarrow> 'a list" where
  "twice xs = concat (map (\<lambda>x. [x, x]) xs)"

definition double_bucket :: "string \<Rightarrow> ('v, 'r, 't) execution \<Rightarrow> ('v, 'r, 't) execution" where
  "double_bucket sid st =
     st\<lparr>result := (result st)\<lparr>subquery_output_by_id :=
        (\<lambda>i. if i = sid then map_option twice (subquery_output_by_id (result st) i)
             else subquery_output_by_id (result st) i)\<rparr>\<rparr>"

text \<open>
  \<open>swapped\<close> relates a list of handles to itself and to the lists obtained from it by
  exchanging two neighbours whose subqueries have different ids; \<open>groups_swapped\<close>
  relates the groups of two maps with the same keys, group by group.
\<close>

definition swapped :: "'v SubqueryHandle list \<Rightarrow> 'v SubqueryHandle list \<Rightarrow> bool" where
  "swapped hs hs' \<longleftrightarrow>
     hs = hs' \<or>
     (\<exists>A y h B. hs = A @ [y, h] @ B \<and> hs' = A @ [h, y] @ B \<and>
        subquery_id (GetSubquery y) \<noteq> subquery_id (GetSubquery h))"

definition groups_swapped ::
  "(string \<times> 'v SubqueryHandle list) list \<Rightarrow> (string \<times> 'v SubqueryHandle list) list \<Rightarrow> bool"
where
  "groups_swapped gs gs' \<longleftrightarrow>
     list_all2 (\<lambda>g g'. fst g = fst g' \<and> swapped (snd g) (snd g')) gs gs'"

definition without_timestamps :: "('v, 'r, 't) execution \<Rightarrow> ('v, 'r, 't) execution" where
  "without_timestamps st =
     st\<lparr>result := (result st)\<lparr>start_timestamp := None, end_timestamp := None\<rparr>\<rparr>"

text \<open>
  The cursor of a handle points at one of its steps; the handles held by the map of
  \<^verbatim>\<open>DeduplicateExpression\<close>.
\<close>

definition cursor_in_range :: "'v SubqueryHandle \<Rightarrow> bool" where
  "cursor_in_range h =
     (case iter h of None \<Rightarrow> False | Some i \<Rightarrow> i < length (steps_in_redpath h))"

definition group_handles :: "(string \<times> 'h list) list \<Rightarrow> 'h set" where
  "group_handles gs = (\<Union>g \<in> set gs. set (snd g))"

text \<open>
  A step expression compiles when both brackets are found and the predicate read is
  \<^verbatim>\<open>*\<close>. \<open>plan_and_run\<close> constructs the planner of a query and runs it.
\<close>

definition step_compiles :: "string \<Rightarrow> bool" where
  "step_compiles step_expression =
     (case GetNodeAndPredicate step_expression of
        Inl e \<Rightarrow> False
      | Inr (node_name, predicate) \<Rightarrow> predicate = kPredicateSelectAll)"

definition plan_and_run ::
  "'v RedfishVariant_ops \<Rightarrow> ('v \<Rightarrow> Subquery \<Rightarrow> 'r option) \<Rightarrow> DelliciusQuery \<Rightarrow> 'v
   \<Rightarrow> (nat \<Rightarrow> 't option) \<Rightarrow> ('v, 'r, 't) execution \<Rightarrow> fault + ('v, 'r, 't) execution"
where
  "plan_and_run ops normalizer query variant clock st =
     (case QueryPlanner query of
        Inl e \<Rightarrow> Inl e
      | Inr planner \<Rightarrow> Run ops normalizer planner variant clock st)"

text \<open>
  Qualifying the members of a collection one after the other, each against the same
  handles; a fault ends the loop.
\<close>

definition qualify_each_member ::
  "'v RedfishVariant_ops \<Rightarrow> ('v \<Rightarrow> Subquery \<Rightarrow> 'r option) \<Rightarrow> 'v list \<Rightarrow> 'v SubqueryHandle list
   \<Rightarrow> ('v, 'r, 't) execution \<Rightarrow> fault + ('v, 'r, 't) execution"
where
  "qualify_each_member ops normalizer collection handles st =
     foldl (\<lambda>outcome member.
              case outcome of
                Inl e \<Rightarrow> Inl e
              | Inr s \<Rightarrow> QualifyEachSubquery ops normalizer member handles s)
       (Inr st) collection"

text \<open>
  A resource view descends under a rank when every object that \<^verbatim>\<open>Dispatch\<close> hands to
  qualification (the child itself, or the members of the child) has a smaller rank
  than the view it was looked up on: the views form a tree. \<open>requests_since st st'\<close>
  are the lookups issued between two states of a run, \<open>next_nodes\<close> the node names
  that the handles demand next.
\<close>

definition descends :: "'v RedfishVariant_ops \<Rightarrow> ('v \<Rightarrow> nat) \<Rightarrow> bool" where
  "descends ops rank =
     (\<forall>v name. AsObject ops (Get ops v name) \<longrightarrow>
        (case AsIterable ops (Get ops v name) of
           None \<Rightarrow> rank (Get ops v name) < rank v
         | Some collection \<Rightarrow> \<forall>member \<in> set collection. rank member < rank v))"

definition requests_since ::
  "('v, 'r, 't) execution \<Rightarrow> ('v, 'r, 't) execution \<Rightarrow> ('v \<times> string) list" where
  "requests_since st st' = drop (length (fetched st)) (fetched st')"

fun next_nodes :: "'v SubqueryHandle list \<Rightarrow> string set" where
  "next_nodes [] = {}"
| "next_nodes (h # hs) =
     (case NextNodeInRedpath h of
        Inr (Some node_name) \<Rightarrow> insert node_name (next_nodes hs)
      | _ \<Rightarrow> next_nodes hs)"

section \<open>Termination of the recursion\<close>

lemma remaining_all_append: "remaining_all (xs @ ys) = remaining_all xs + remaining_all ys"
  by (simp add: remaining_all_def)

lemma remaining_groups_Cons:
  "remaining_groups ((n, hs) # rest) = remaining_all hs + remaining_groups rest"
  by (simp add: remaining_groups_def)

lemma remaining_groups_push_back:
  "remaining_groups (push_back k h m) = remaining_groups m + remaining h"
  by (induction k h m rule: push_back.induct)
     (simp_all add: remaining_groups_def remaining_all_def)

lemma DeduplicateExpression_loop_remaining:
  "DeduplicateExpression_loop hs m = Inr b \<Longrightarrow>
     remaining_groups b \<le> remaining_groups m + remaining_all hs"
proof (induction hs arbitrary: m)
  case Nil
  then show ?case by simp
next
  case (Cons h hs)
  show ?case
  proof (cases "NextNodeInRedpath h")
    case (Inl e)
    with Cons.prems show ?thesis by simp
  next
    case (Inr r)
    show ?thesis
    proof (cases r)
      case None
      with Inr Cons.prems have "DeduplicateExpression_loop hs m = Inr b" by simp
      from Cons.IH [OF this] show ?thesis by (simp add: remaining_all_def)
    next
      case (Some name)
      with Inr Cons.prems have "DeduplicateExpression_loop hs (push_back name h m) = Inr b"
        by simp
      from Cons.IH [OF this] show ?thesis
        by (simp add: remaining_groups_push_back remaining_all_def)
    qed
  qed
qed

lemma DeduplicateExpression_remaining:
  "DeduplicateExpression hs = Inr b \<Longrightarrow> remaining_groups b \<le> remaining_all hs"
  using DeduplicateExpression_loop_remaining [of hs "[]" b]
  by (simp add: DeduplicateExpression_def remaining_groups_def)

lemma deref_Inr:
  "deref h = Inr step \<Longrightarrow>
     \<exists>i. iter h = Some i \<and> i < length (steps_in_redpath h) \<and> step = steps_in_redpath h ! i"
  by (auto simp: deref_def split: option.splits if_splits)

lemma FilterNodeSet_kContinue_remaining:
  "FilterNodeSet h var = Inr (kContinue, h') \<Longrightarrow> remaining h' < remaining h"
  by (auto simp: FilterNodeSet_def remaining_def Let_def
           split: sum.splits if_splits dest!: deref_Inr)

lemma QualifyEachSubquery_loop_remaining:
  "QualifyEachSubquery_loop nz var hs acc st = Inr (q, st') \<Longrightarrow>
     \<exists>new. q = acc @ new \<and> remaining_all new + length new \<le> remaining_all hs"
proof (induction hs arbitrary: acc st)
  case Nil
  then show ?case by (simp add: remaining_all_def)
next
  case (Cons h hs)
  show ?case
  proof (cases "FilterNodeSet h var")
    case (Inl e)
    with Cons.prems show ?thesis by simp
  next
    case (Inr r)
    obtain status h' where r: "r = (status, h')" by (cases r)
    show ?thesis
    proof (cases status)
      case kEndByPredicate
      with Inr r Cons.prems have "QualifyEachSubquery_loop nz var hs acc st = Inr (q, st')"
        by simp
      from Cons.IH [OF this] show ?thesis by (auto simp: remaining_all_def)
    next
      case kEndOfRedpath
      with Inr r Cons.prems
      have "\<exists>st1. QualifyEachSubquery_loop nz var hs acc st1 = Inr (q, st')"
        by (auto simp: Let_def split: option.splits)
      then obtain st1 where "QualifyEachSubquery_loop nz var hs acc st1 = Inr (q, st')" ..
      from Cons.IH [OF this] show ?thesis by (auto simp: remaining_all_def)
    next
      case kContinue
      with Inr r Cons.prems
      have run: "QualifyEachSubquery_loop nz var hs (acc @ [h']) st = Inr (q, st')"
        by simp
      from Inr r kContinue have "remaining h' < remaining h"
        by (simp add: FilterNodeSet_kContinue_remaining)
      moreover from Cons.IH [OF run] obtain new where
        "q = (acc @ [h']) @ new" "remaining_all new + length new \<le> remaining_all hs"
        by blast
      ultimately have "q = acc @ (h' # new) \<and>
          remaining_all (h' # new) + length (h' # new) \<le> remaining_all (h # hs)"
        by (simp add: remaining_all_def)
      then show ?thesis by blast
    qed
  qed
qed

lemma QualifyEachSubquery_loop_decreases:
  "QualifyEachSubquery_loop nz var hs [] st = Inr (q, st') \<Longrightarrow> q \<noteq> [] \<Longrightarrow>
     remaining_all q < remaining_all hs"
  by (drule QualifyEachSubquery_loop_remaining) (cases q; auto)

termination RunRecursive
  apply (relation "inv_image (less_than <*lex*> less_than <*lex*> less_than)
     (\<lambda>x. case x of
        Inl (Inl (ops, nz, v, hs, st)) \<Rightarrow> (remaining_all hs, 3::nat, 0::nat)
      | Inl (Inr (ops, nz, v, gs, st)) \<Rightarrow> (remaining_groups gs, 2, length gs)
      | Inr (Inl (ops, nz, ms, hs, st)) \<Rightarrow> (remaining_all hs, 1, length ms)
      | Inr (Inr (ops, nz, v, hs, st)) \<Rightarrow> (remaining_all hs, 0, 0))")
  subgoal by (intro wf_inv_image wf_lex_prod wf_less_than)
  subgoal by (drule DeduplicateExpression_remaining) auto
  subgoal by (auto simp: remaining_groups_Cons)
  subgoal by (auto simp: remaining_groups_Cons)
  subgoal by (auto simp: remaining_groups_Cons)
  subgoal by (auto simp: remaining_groups_Cons)
  subgoal by (auto simp: remaining_groups_Cons)
  subgoal by auto
  subgoal by auto
  subgoal by (auto dest: QualifyEachSubquery_loop_decreases)
  done

declare RunRecursive.simps [simp del] QualifyEachSubquery.simps [simp del]

section \<open>Evaluation on concrete inputs\<close>

lemmas compile_simps =
  SubqueryHandle_def SkipEmpty_def GetNodeAndPredicate_def substr_def predicate_length_def
  kPredicateSelectAll_def

lemmas handle_simps =
  NextNodeInRedpath_def deref_def FilterNodeSet_def ApplySelectAllFilter_def Let_def

lemmas run_simps =
  QueryPlanner_def DeduplicateExpression_def resource_ops_def child_def add_data_set_def
  Run_def start_def empty_result_def absent_def RunRecursive.simps QualifyEachSubquery.simps

lemmas example_simps =
  service_root_def chassis_collection_def chassis1_def chassis2_def status_leaf_def
  tag_array_def normalize_view_def sq_chassis_def sq_status_def sq_tags_def
  sq_no_brackets_def

lemma find_first_of_less: "find_first_of s c = Some i \<Longrightarrow> i < length s"
  by (induction s arbitrary: i) (auto split: if_splits)

section \<open>Path compilation and the handle cursor at concrete inputs\<close>

text \<open>
  Claim C1 (the code departs from it). \<^verbatim>\<open>FilterNodeSet\<close> decides that the last step is
  reached by comparing the node name of the current step with the node name of the
  last step. The path \<^verbatim>\<open>/Chassis[*]/Links[*]/Chassis[*]\<close> has three steps, and its
  first step has the name of its last: with the cursor at step 0 the outcome is
  \<open>kEndOfRedpath\<close>, so a run records the members of the chassis collection for the
  subquery and never looks at \<open>Links\<close>.
\<close>

theorem C1_end_of_redpath_at_first_step:
  "iter (SubqueryHandle sq_revisit :: resource SubqueryHandle) = Some 0 \<and>
   map fst (steps_in_redpath (SubqueryHandle sq_revisit :: resource SubqueryHandle))
     = [''Chassis'', ''Links'', ''Chassis''] \<and>
   FilterNodeSet (SubqueryHandle sq_revisit) chassis1
     = Inr (kEndOfRedpath, SubqueryHandle sq_revisit) \<and>
   map_sum id (\<lambda>st. (subquery_output_by_id (result st) ''S6'', map snd (fetched st)))
     (Run resource_ops normalize_view
        \<lparr>plan_id = ''Q'', subquery_handles = [SubqueryHandle sq_revisit]\<rparr>
        service_root (\<lambda>k. None :: nat option) start)
     = Inr (Some [chassis1, chassis2], [''Chassis''])"
  by (simp add: sq_revisit_def compile_simps handle_simps run_simps normalize_view_def
        service_root_def chassis_collection_def chassis1_def chassis2_def status_leaf_def tag_array_def)

text \<open>
  Claim C2 (the code departs from it). \<^verbatim>\<open>GetNodeAndPredicate\<close> only checks that both
  brackets occur. In \<^verbatim>\<open>]Chassis[*\<close> the first \<^verbatim>\<open>]\<close> is at index 0, before the first
  \<^verbatim>\<open>[\<close> at index 8; the length of the predicate wraps around, the predicate read is
  \<^verbatim>\<open>*\<close>, and the handle is valid and in the active set of the planner.
\<close>

theorem C2_reversed_brackets_accepted:
  "find_first_of '']Chassis[*'' CHR '']'' = Some 0 \<and>
   find_first_of '']Chassis[*'' CHR ''['' = Some 8 \<and>
   GetNodeAndPredicate '']Chassis[*'' = Inr ('']Chassis'', ''*'') \<and>
   (QueryPlanner \<lparr>query_id = ''Q'', subquery = [sq_reversed]\<rparr> :: fault + resource QueryPlanner)
     = Inr \<lparr>plan_id = ''Q'',
            subquery_handles =
              [\<lparr>GetSubquery = sq_reversed, is_redpath_valid = True,
                steps_in_redpath = [('']Chassis'', ApplySelectAllFilter)], iter = Some 0\<rparr>]\<rparr>"
  by (simp add: sq_reversed_def compile_simps NextNodeInRedpath_def deref_def QueryPlanner_def)

text \<open>
  Claim C10 (the code departs from it). A path without a step (the empty path, or
  only separators) compiles to a valid handle whose step list is empty and whose
  iterator is \<^verbatim>\<open>begin() = end()\<close>: \<^verbatim>\<open>NextNodeInRedpath\<close> and \<^verbatim>\<open>FilterNodeSet\<close> read
  through it, and the constructor of the planner already does so.
\<close>

theorem C10_empty_path_reads_past_the_end:
  "steps_in_redpath (SubqueryHandle sq_empty :: resource SubqueryHandle) = [] \<and>
   is_redpath_valid (SubqueryHandle sq_empty :: resource SubqueryHandle) \<and>
   iter (SubqueryHandle sq_empty :: resource SubqueryHandle) = Some 0 \<and>
   NextNodeInRedpath (SubqueryHandle sq_empty :: resource SubqueryHandle) = Inl PastTheEnd \<and>
   FilterNodeSet (SubqueryHandle sq_empty) service_root = Inl PastTheEnd \<and>
   (QueryPlanner \<lparr>query_id = ''Q'', subquery = [sq_empty]\<rparr> :: fault + resource QueryPlanner)
     = Inl PastTheEnd \<and>
   (QueryPlanner \<lparr>query_id = ''Q'',
      subquery = [\<lparr>subquery_id = ''S5'', redpath = ''//'', properties = []\<rparr>]\<rparr>
      :: fault + resource QueryPlanner) = Inl PastTheEnd"
  by (simp add: sq_empty_def compile_simps handle_simps QueryPlanner_def)

section \<open>Running with duplicated handles\<close>

lemma twice_where_Nil [simp]: "twice_where P [] = []"
  by (simp add: twice_where_def)

lemma twice_where_Cons:
  "twice_where P (x # xs) = (if P x then x # x # twice_where P xs else x # twice_where P xs)"
  by (simp add: twice_where_def)

lemma twice_where_append: "twice_where P (xs @ ys) = twice_where P xs @ twice_where P ys"
  by (simp add: twice_where_def)

lemma twice_where_eq_Nil [simp]: "twice_where P xs = [] \<longleftrightarrow> xs = []"
  by (cases xs) (simp_all add: twice_where_Cons)

lemma twice_where_False [simp]: "twice_where (\<lambda>x. False) xs = xs"
  by (induction xs) (simp_all add: twice_where_Cons)

lemma twice_handles_simps [simp]:
  "twice_handles P [] = []"
  "twice_handles P (h # hs) =
     (if P (GetSubquery h) then h # h # twice_handles P hs else h # twice_handles P hs)"
  "twice_handles P (xs @ ys) = twice_handles P xs @ twice_handles P ys"
  "twice_handles P xs = [] \<longleftrightarrow> xs = []"
  by (simp_all add: twice_handles_def twice_where_Cons twice_where_append)

lemma twice_groups_simps [simp]:
  "twice_groups P [] = []"
  "twice_groups P ((n, g) # gs) = (n, twice_handles P g) # twice_groups P gs"
  "twice_groups P gs = [] \<longleftrightarrow> gs = []"
  by (simp_all add: twice_groups_def)

lemma push_back_twice_groups:
  "push_back k h (twice_groups P m) = twice_groups P (push_back k h m)"
  if "\<not> P (GetSubquery h)"
  using that by (induction k h m rule: push_back.induct) simp_all

lemma push_back_push_back_twice_groups:
  "push_back k h (push_back k h (twice_groups P m)) = twice_groups P (push_back k h m)"
  if "P (GetSubquery h)"
  using that by (induction k h m rule: push_back.induct) simp_all

lemma DeduplicateExpression_loop_twice:
  "DeduplicateExpression_loop (twice_handles P hs) (twice_groups P m)
     = map_sum id (twice_groups P) (DeduplicateExpression_loop hs m)"
proof (induction hs arbitrary: m)
  case Nil
  show ?case by simp
next
  case (Cons h hs)
  show ?case
    by (cases "NextNodeInRedpath h")
       (auto simp: Cons.IH push_back_twice_groups push_back_push_back_twice_groups
             simp del: push_back.simps split: option.splits)
qed

lemma DeduplicateExpression_twice:
  "DeduplicateExpression (twice_handles P hs)
     = map_sum id (twice_groups P) (DeduplicateExpression hs)"
  using DeduplicateExpression_loop_twice [of P hs "[]"]
  by (simp add: DeduplicateExpression_def)

lemma FilterNodeSet_GetSubquery:
  "FilterNodeSet h var = Inr (s, h') \<Longrightarrow> GetSubquery h' = GetSubquery h"
  by (auto simp: FilterNodeSet_def Let_def split: sum.splits if_splits)


lemma QualifyEachSubquery_loop_twice:
  fixes f :: "('v, 'r, 't) execution \<Rightarrow> ('v, 'r, 't) execution"
  assumes once: "\<And>sq r st. \<not> P sq \<Longrightarrow>
      (f st)\<lparr>result := add_data_set (subquery_id sq) r (result (f st))\<rparr>
        = f (st\<lparr>result := add_data_set (subquery_id sq) r (result st)\<rparr>)"
    and twice: "\<And>sq r st. P sq \<Longrightarrow>
      (f st)\<lparr>result := add_data_set (subquery_id sq) r
                  (add_data_set (subquery_id sq) r (result (f st)))\<rparr>
        = f (st\<lparr>result := add_data_set (subquery_id sq) r (result st)\<rparr>)"
  shows "QualifyEachSubquery_loop nz var (twice_handles P hs) (twice_handles P acc) (f st)
     = map_sum id (\<lambda>(q, s). (twice_handles P q, f s))
         (QualifyEachSubquery_loop nz var hs acc st)"
proof (induction hs arbitrary: acc st)
  case Nil
  show ?case by simp
next
  case (Cons h hs)
  show ?case
  proof (cases "FilterNodeSet h var")
    case (Inl e)
    then show ?thesis by simp
  next
    case (Inr r)
    obtain s h' where r: "r = (s, h')" by (cases r)
    from Inr r have sq: "GetSubquery h' = GetSubquery h"
      by (simp add: FilterNodeSet_GetSubquery)
    show ?thesis
    proof (cases s)
      case kEndByPredicate
      with Inr r show ?thesis by (simp add: Cons.IH)
    next
      case kContinue
      with Inr r sq Cons.IH [of "acc @ [h']" st] show ?thesis
        by (cases "P (GetSubquery h)") simp_all
    next
      case kEndOfRedpath
      show ?thesis
      proof (cases "nz var (GetSubquery h)")
        case None
        with Inr r sq kEndOfRedpath show ?thesis by (simp add: Cons.IH)
      next
        case (Some d)
        show ?thesis
        proof (cases "P (GetSubquery h)")
          case True
          with Inr r sq kEndOfRedpath Some
            Cons.IH [of acc "st\<lparr>result := add_data_set (subquery_id (GetSubquery h)) d (result st)\<rparr>"]
            twice [OF True, of d st]
          show ?thesis by simp
        next
          case False
          with Inr r sq kEndOfRedpath Some
            Cons.IH [of acc "st\<lparr>result := add_data_set (subquery_id (GetSubquery h)) d (result st)\<rparr>"]
            once [OF False, of d st]
          show ?thesis by simp
        qed
      qed
    qed
  qed
qed


lemma run_twice_handles:
  fixes f :: "('v, 'r, 't) execution \<Rightarrow> ('v, 'r, 't) execution"
    and ops :: "'v RedfishVariant_ops" and nz :: "'v \<Rightarrow> Subquery \<Rightarrow> 'r option"
  assumes fetch: "\<And>st e. f (st\<lparr>fetched := fetched st @ [e]\<rparr>)
        = (f st)\<lparr>fetched := fetched (f st) @ [e]\<rparr>"
    and once: "\<And>sq r st. \<not> P sq \<Longrightarrow>
      (f st)\<lparr>result := add_data_set (subquery_id sq) r (result (f st))\<rparr>
        = f (st\<lparr>result := add_data_set (subquery_id sq) r (result st)\<rparr>)"
    and twice: "\<And>sq r st. P sq \<Longrightarrow>
      (f st)\<lparr>result := add_data_set (subquery_id sq) r
                  (add_data_set (subquery_id sq) r (result (f st)))\<rparr>
        = f (st\<lparr>result := add_data_set (subquery_id sq) r (result st)\<rparr>)"
  shows "RunRecursive ops nz v hs st = r1 \<Longrightarrow>
           RunRecursive ops nz v (twice_handles P hs) (f st) = map_sum id f r1"
    and "Dispatch ops nz v gs st = r2 \<Longrightarrow>
           Dispatch ops nz v (twice_groups P gs) (f st) = map_sum id f r2"
    and "Dispatch_members ops nz ms hs st = r3 \<Longrightarrow>
           Dispatch_members ops nz ms (twice_handles P hs) (f st) = map_sum id f r3"
    and "QualifyEachSubquery ops nz v hs st = r4 \<Longrightarrow>
           QualifyEachSubquery ops nz v (twice_handles P hs) (f st) = map_sum id f r4"
proof (induction ops nz v hs st and ops nz v gs st and ops nz ms hs st and ops nz v hs st
       arbitrary: r1 and r2 and r3 and r4
       rule: RunRecursive_Dispatch_Dispatch_members_QualifyEachSubquery.induct)
  case (1 ops normalizer variant handles st)
  show ?case
  proof (cases "DeduplicateExpression handles")
    case (Inl e)
    with 1(2) show ?thesis by (auto simp: DeduplicateExpression_twice RunRecursive.simps)
  next
    case (Inr gs)
    show ?thesis
    proof (cases "gs = []")
      case True
      with Inr 1(2) show ?thesis by (auto simp: DeduplicateExpression_twice RunRecursive.simps)
    next
      case False
      from 1(1) [OF Inr False refl] Inr False 1(2)
      show ?thesis by (auto simp: DeduplicateExpression_twice RunRecursive.simps)
    qed
  qed
next
  case (2 ops normalizer var st)
  then show ?case by auto
next
  case (3 ops normalizer var resource_name handles rest st)
  let ?x = "Get ops var resource_name"
  let ?xa = "st\<lparr>fetched := fetched st @ [(var, resource_name)]\<rparr>"
  have fx: "(f st)\<lparr>fetched := fetched (f st) @ [(var, resource_name)]\<rparr> = f ?xa"
    by (simp add: fetch)
  have r2: "r2 = Dispatch ops normalizer var ((resource_name, handles) # rest) st"
    using 3(6) by simp
  show ?case
  proof (cases "AsObject ops ?x")
    case False
    from 3(1) [OF refl refl False refl] False show ?thesis
      unfolding r2 by (simp add: Let_def fx)
  next
    case True
    then have nn: "\<not> \<not> AsObject ops ?x" by simp
    show ?thesis
    proof (cases "AsIterable ops ?x")
      case None
      show ?thesis
      proof (cases "QualifyEachSubquery ops normalizer ?x handles ?xa")
        case (Inl e)
        from 3(2) [OF refl refl nn None Inl] True None Inl show ?thesis
          unfolding r2 by (simp add: Let_def fx)
      next
        case (Inr b)
        from 3(2) [OF refl refl nn None Inr] 3(3) [OF refl refl nn None Inr refl]
          True None Inr
        show ?thesis unfolding r2 by (simp add: Let_def fx)
      qed
    next
      case (Some ms)
      show ?thesis
      proof (cases "Dispatch_members ops normalizer ms handles ?xa")
        case (Inl e)
        from 3(4) [OF refl refl nn Some Inl] True Some Inl show ?thesis
          unfolding r2 by (simp add: Let_def fx)
      next
        case (Inr b)
        from 3(4) [OF refl refl nn Some Inr] 3(5) [OF refl refl nn Some Inr refl]
          True Some Inr
        show ?thesis unfolding r2 by (simp add: Let_def fx)
      qed
    qed
  qed
next
  case (4 ops normalizer handles st)
  then show ?case by auto
next
  case (5 ops normalizer member rest handles st)
  have r3: "r3 = Dispatch_members ops normalizer (member # rest) handles st"
    using 5(3) by simp
  show ?case
  proof (cases "QualifyEachSubquery ops normalizer member handles st")
    case (Inl e)
    from 5(1) [OF Inl] Inl show ?thesis unfolding r3 by simp
  next
    case (Inr b)
    from 5(1) [OF Inr] 5(2) [OF Inr refl] Inr show ?thesis unfolding r3 by simp
  qed
next
  case (6 ops normalizer var handles st)
  have loop: "QualifyEachSubquery_loop normalizer var (twice_handles P handles) [] (f st)
     = map_sum id (\<lambda>(q, s). (twice_handles P q, f s))
         (QualifyEachSubquery_loop normalizer var handles [] st)"
    using QualifyEachSubquery_loop_twice [of P f normalizer var handles "[]" st, OF once twice]
    by simp
  have r4: "r4 = QualifyEachSubquery ops normalizer var handles st"
    using 6(2) by simp
  show ?case
  proof (cases "QualifyEachSubquery_loop normalizer var handles [] st")
    case (Inl e)
    with loop show ?thesis unfolding r4 by (simp add: QualifyEachSubquery.simps)
  next
    case (Inr b)
    obtain q s where b: "b = (q, s)" by (cases b)
    show ?thesis
    proof (cases "q = []")
      case True
      with Inr b loop show ?thesis unfolding r4 by (simp add: QualifyEachSubquery.simps)
    next
      case False
      from 6(1) [OF Inr b [symmetric] False refl] Inr b loop False
      show ?thesis unfolding r4 by (simp add: QualifyEachSubquery.simps)
    qed
  qed
qed


section \<open>Determinism of a run\<close>

lemma twice_handles_False [simp]: "twice_handles (\<lambda>sq. False) hs = hs"
  by (simp add: twice_handles_def)

lemma RunRecursive_frame:
  fixes f :: "('v, 'r, 't) execution \<Rightarrow> ('v, 'r, 't) execution"
  assumes "\<And>st e. f (st\<lparr>fetched := fetched st @ [e]\<rparr>)
        = (f st)\<lparr>fetched := fetched (f st) @ [e]\<rparr>"
    and "\<And>sid r st.
      (f st)\<lparr>result := add_data_set sid r (result (f st))\<rparr>
        = f (st\<lparr>result := add_data_set sid r (result st)\<rparr>)"
  shows "RunRecursive ops nz v hs (f st) = map_sum id f (RunRecursive ops nz v hs st)"
  using run_twice_handles(1) [of f "\<lambda>sq. False" ops nz v hs st, OF assms(1) assms(2) _ refl]
  by simp

lemma RunRecursive_start_timestamp:
  "RunRecursive ops nz v hs (st\<lparr>result := (result st)\<lparr>start_timestamp := x\<rparr>\<rparr>)
     = map_sum id (\<lambda>s. s\<lparr>result := (result s)\<lparr>start_timestamp := x\<rparr>\<rparr>)
         (RunRecursive ops nz v hs st)"
  by (rule RunRecursive_frame [where f = "\<lambda>s. s\<lparr>result := (result s)\<lparr>start_timestamp := x\<rparr>\<rparr>"])
     (simp_all add: add_data_set_def)

lemma without_timestamps_Run:
  "map_sum id without_timestamps (Run ops nz planner v clock st)
     = map_sum id without_timestamps
         (RunRecursive ops nz v (subquery_handles planner)
            (st\<lparr>result := (result st)\<lparr>query_ids := query_ids (result st) @ [plan_id planner]\<rparr>\<rparr>))"
proof -
  let ?st = "st\<lparr>result := (result st)\<lparr>query_ids := query_ids (result st) @ [plan_id planner]\<rparr>\<rparr>"
  show ?thesis
  proof (cases "clock 0")
    case None
    then show ?thesis
      by (cases "RunRecursive ops nz v (subquery_handles planner) ?st"; cases "clock 1")
         (simp_all add: Run_def without_timestamps_def)
  next
    case (Some ts)
    have upd: "(result st)\<lparr>start_timestamp := Some ts,
               query_ids := query_ids (result st) @ [plan_id planner]\<rparr>
          = (result ?st)\<lparr>start_timestamp := Some ts\<rparr>"
      by (rule DelliciusQueryResult.equality) simp_all
    have eq: "RunRecursive ops nz v (subquery_handles planner)
           (st\<lparr>result := (result st)\<lparr>start_timestamp := Some ts,
               query_ids := query_ids (result st) @ [plan_id planner]\<rparr>\<rparr>)
         = map_sum id (\<lambda>s. s\<lparr>result := (result s)\<lparr>start_timestamp := Some ts\<rparr>\<rparr>)
             (RunRecursive ops nz v (subquery_handles planner) ?st)"
      unfolding upd
      using RunRecursive_start_timestamp
          [where ops = ops and nz = nz and v = v and hs = "subquery_handles planner"
             and st = ?st and x = "Some ts"]
      by simp
    from Some show ?thesis
      by (cases "RunRecursive ops nz v (subquery_handles planner) ?st"; cases "clock 1")
         (simp_all add: Run_def without_timestamps_def eq)
  qed
qed

text \<open>
  Claim C9. Two runs of the same planner on the same resource, from the same result,
  whatever the clock reads: once the two timestamps are blanked, the outcomes are
  equal, query ids, every bucket with its records in order, and the requests issued.
\<close>

theorem C9_run_deterministic:
  "map_sum id without_timestamps (Run ops nz planner v clock st)
     = map_sum id without_timestamps (Run ops nz planner v clock' st)"
  by (simp only: without_timestamps_Run)


section \<open>Exchanging neighbouring handles of different subqueries\<close>

text \<open>
  Two neighbouring handles whose subqueries have different ids write to different
  buckets and fetch the same nodes in either order, so a run that returns is not changed
  by exchanging them. Repeating such exchanges brings the handles of one id to the
  front.
\<close>

lemma swapped_refl [simp]: "swapped hs hs"
  by (simp add: swapped_def)

lemma swapped_pair:
  "subquery_id (GetSubquery y) \<noteq> subquery_id (GetSubquery h) \<Longrightarrow>
     swapped (A @ [y, h] @ B) (A @ [h, y] @ B)"
  unfolding swapped_def by blast

lemma swapped_append: "swapped g g' \<Longrightarrow> swapped (g @ C) (g' @ C)"
proof -
  assume "swapped g g'"
  then consider "g = g'"
    | A y h B where "g = A @ [y, h] @ B" "g' = A @ [h, y] @ B"
        "subquery_id (GetSubquery y) \<noteq> subquery_id (GetSubquery h)"
    unfolding swapped_def by blast
  then show ?thesis
  proof cases
    case 1
    then show ?thesis by simp
  next
    case 2
    from swapped_pair [OF 2(3), of A "B @ C"] 2(1,2) show ?thesis by simp
  qed
qed

lemma swapped_prepend: "swapped g g' \<Longrightarrow> swapped (C @ g) (C @ g')"
proof -
  assume "swapped g g'"
  then consider "g = g'"
    | A y h B where "g = A @ [y, h] @ B" "g' = A @ [h, y] @ B"
        "subquery_id (GetSubquery y) \<noteq> subquery_id (GetSubquery h)"
    unfolding swapped_def by blast
  then show ?thesis
  proof cases
    case 1
    then show ?thesis by simp
  next
    case 2
    from swapped_pair [OF 2(3), of "C @ A" B] 2(1,2) show ?thesis by simp
  qed
qed

lemma swapped_Nil: "swapped hs hs' \<Longrightarrow> hs = [] \<longleftrightarrow> hs' = []"
  by (auto simp: swapped_def)

lemma groups_swapped_refl [simp]: "groups_swapped gs gs"
  by (simp add: groups_swapped_def list_all2_refl)

lemma groups_swapped_Nil: "groups_swapped gs gs' \<Longrightarrow> gs = [] \<longleftrightarrow> gs' = []"
  by (auto simp: groups_swapped_def)

lemma groups_swapped_Cons:
  "groups_swapped ((k, g) # gs) gs' \<longleftrightarrow>
     (\<exists>g' rest. gs' = (k, g') # rest \<and> swapped g g' \<and> groups_swapped gs rest)"
  by (auto simp: groups_swapped_def list_all2_Cons1)

lemma push_back_groups_swapped:
  "groups_swapped m m' \<Longrightarrow> groups_swapped (push_back k b m) (push_back k b m')"
proof (induction k b m arbitrary: m' rule: push_back.induct)
  case (1 k h)
  then show ?case by (simp add: groups_swapped_def)
next
  case (2 k h k' hs rest)
  from 2(2) obtain g' rest' where m': "m' = (k', g') # rest'" and sw: "swapped hs g'"
    and r: "groups_swapped rest rest'"
    by (auto simp: groups_swapped_Cons)
  show ?case
  proof (cases "k = k'")
    case True
    with m' sw r show ?thesis
      by (simp add: groups_swapped_Cons swapped_append)
  next
    case ne: False
    show ?thesis
    proof (cases "k < k'")
      case True
      with ne m' sw r show ?thesis by (simp add: groups_swapped_Cons)
    next
      case False
      with ne m' sw 2(1) [OF ne False r] show ?thesis by (simp add: groups_swapped_Cons)
    qed
  qed
qed

lemma push_back_twice_swapped:
  "subquery_id (GetSubquery a) \<noteq> subquery_id (GetSubquery b) \<Longrightarrow>
     groups_swapped (push_back k b (push_back k a m)) (push_back k a (push_back k b m))"
proof (induction m)
  case Nil
  from swapped_pair [OF Nil, of "[]" "[]"] show ?case
    by (simp add: groups_swapped_Cons)
next
  case (Cons g m)
  obtain k' hs where g: "g = (k', hs)" by (cases g)
  from swapped_pair [OF Cons.prems, of hs "[]"] swapped_pair [OF Cons.prems, of "[]" "[]"]
    Cons.IH [OF Cons.prems] g
  show ?case by (auto simp: groups_swapped_Cons)
qed

lemma push_back_commute:
  "k1 \<noteq> k2 \<Longrightarrow> push_back k2 b (push_back k1 a m) = push_back k1 a (push_back k2 b m)"
  by (induction m) auto

lemma DeduplicateExpression_loop_append:
  "DeduplicateExpression_loop (A @ B) m
     = (case DeduplicateExpression_loop A m of
          Inl e \<Rightarrow> Inl e
        | Inr m1 \<Rightarrow> DeduplicateExpression_loop B m1)"
proof (induction A arbitrary: m)
  case Nil
  show ?case by simp
next
  case (Cons h A)
  show ?case
    by (cases "NextNodeInRedpath h")
       (simp_all add: Cons.IH del: push_back.simps split: option.splits)
qed

lemma DeduplicateExpression_loop_append_Inr:
  "DeduplicateExpression_loop (A @ B) m = Inr gs \<Longrightarrow>
     \<exists>m1. DeduplicateExpression_loop A m = Inr m1 \<and> DeduplicateExpression_loop B m1 = Inr gs"
  by (simp add: DeduplicateExpression_loop_append split: sum.splits)

lemma DeduplicateExpression_loop_append_Inr_iff:
  "DeduplicateExpression_loop A m = Inr m1 \<Longrightarrow>
     DeduplicateExpression_loop (A @ B) m = DeduplicateExpression_loop B m1"
  by (simp add: DeduplicateExpression_loop_append)

lemma DeduplicateExpression_loop_groups_swapped:
  "DeduplicateExpression_loop B m = Inr gs \<Longrightarrow> groups_swapped m m' \<Longrightarrow>
     \<exists>gs'. DeduplicateExpression_loop B m' = Inr gs' \<and> groups_swapped gs gs'"
proof (induction B arbitrary: m m')
  case Nil
  then show ?case by simp
next
  case (Cons h B)
  show ?case
  proof (cases "NextNodeInRedpath h")
    case (Inl e)
    with Cons.prems show ?thesis by simp
  next
    case (Inr r)
    show ?thesis
    proof (cases r)
      case None
      with Inr Cons.prems Cons.IH [of m m'] show ?thesis by simp
    next
      case (Some k)
      with Inr Cons.prems
        Cons.IH [of "push_back k h m" "push_back k h m'"]
        push_back_groups_swapped [OF Cons.prems(2), of k h]
      show ?thesis by (simp del: push_back.simps)
    qed
  qed
qed

lemma DeduplicateExpression_swapped:
  assumes "swapped hs hs'" and "DeduplicateExpression hs = Inr gs"
  shows "\<exists>gs'. DeduplicateExpression hs' = Inr gs' \<and> groups_swapped gs gs'"
proof -
  from assms(1) consider "hs = hs'"
    | A y h B where "hs = A @ [y, h] @ B" "hs' = A @ [h, y] @ B"
        "subquery_id (GetSubquery y) \<noteq> subquery_id (GetSubquery h)"
    unfolding swapped_def by blast
  then show ?thesis
  proof cases
    case 1
    with assms(2) show ?thesis by auto
  next
    case 2
    from assms(2) 2(1) have "DeduplicateExpression_loop (A @ ([y, h] @ B)) [] = Inr gs"
      by (simp add: DeduplicateExpression_def)
    from DeduplicateExpression_loop_append_Inr [OF this] obtain m1 where
      a: "DeduplicateExpression_loop A [] = Inr m1"
      and rest: "DeduplicateExpression_loop ([y, h] @ B) m1 = Inr gs"
      by blast
    from DeduplicateExpression_loop_append_Inr [OF rest] obtain m2 where
      yh: "DeduplicateExpression_loop [y, h] m1 = Inr m2"
      and b: "DeduplicateExpression_loop B m2 = Inr gs"
      by blast
    have "\<exists>m2'. DeduplicateExpression_loop [h, y] m1 = Inr m2' \<and> groups_swapped m2 m2'"
    proof (cases "NextNodeInRedpath y")
      case (Inl e)
      with yh show ?thesis by simp
    next
      case ry: (Inr ry)
      show ?thesis
      proof (cases "NextNodeInRedpath h")
        case (Inl e)
        with yh ry show ?thesis by (simp split: option.splits)
      next
        case rh: (Inr rh)
        show ?thesis
        proof (cases ry)
          case None
          with ry rh yh show ?thesis by (auto simp del: push_back.simps split: option.splits)
        next
          case sy: (Some ky)
          show ?thesis
          proof (cases rh)
            case None
            with ry rh sy yh show ?thesis by (auto simp del: push_back.simps)
          next
            case sh: (Some kh)
            show ?thesis
            proof (cases "ky = kh")
              case True
              with ry rh sy sh yh push_back_twice_swapped [OF 2(3), of kh m1]
              show ?thesis by (auto simp del: push_back.simps)
            next
              case False
              with ry rh sy sh yh push_back_commute [OF False, of h y m1]
              show ?thesis by (auto simp del: push_back.simps)
            qed
          qed
        qed
      qed
    qed
    then obtain m2' where yh': "DeduplicateExpression_loop [h, y] m1 = Inr m2'"
      and sw: "groups_swapped m2 m2'"
      by blast
    from DeduplicateExpression_loop_groups_swapped [OF b sw] obtain gs' where
      "DeduplicateExpression_loop B m2' = Inr gs'" "groups_swapped gs gs'"
      by blast
    moreover have "DeduplicateExpression hs' = DeduplicateExpression_loop B m2'"
      unfolding DeduplicateExpression_def 2(2)
      using DeduplicateExpression_loop_append_Inr_iff [OF a, of "[h, y] @ B"]
        DeduplicateExpression_loop_append_Inr_iff [OF yh', of B]
      by simp
    ultimately show ?thesis by simp
  qed
qed


lemma QualifyEachSubquery_loop_append:
  "QualifyEachSubquery_loop nz var (A @ B) acc st
     = (case QualifyEachSubquery_loop nz var A acc st of
          Inl e \<Rightarrow> Inl e
        | Inr (q, s) \<Rightarrow> QualifyEachSubquery_loop nz var B q s)"
proof (induction A arbitrary: acc st)
  case Nil
  show ?case by simp
next
  case (Cons h A)
  show ?case
  proof (cases "FilterNodeSet h var")
    case (Inl e)
    then show ?thesis by simp
  next
    case (Inr r)
    obtain s h1 where r: "r = (s, h1)" by (cases r)
    with Inr show ?thesis
      by (cases s; cases "nz var (GetSubquery h1)") (simp_all add: Cons.IH)
  qed
qed

lemma QualifyEachSubquery_loop_append_Inr:
  "QualifyEachSubquery_loop nz var (A @ B) acc st = Inr (q, s) \<Longrightarrow>
     \<exists>q1 s1. QualifyEachSubquery_loop nz var A acc st = Inr (q1, s1) \<and>
        QualifyEachSubquery_loop nz var B q1 s1 = Inr (q, s)"
  by (auto simp: QualifyEachSubquery_loop_append split: sum.splits)

lemma QualifyEachSubquery_loop_append_Inr_iff:
  "QualifyEachSubquery_loop nz var A acc st = Inr (q1, s1) \<Longrightarrow>
     QualifyEachSubquery_loop nz var (A @ B) acc st = QualifyEachSubquery_loop nz var B q1 s1"
  by (simp add: QualifyEachSubquery_loop_append)

lemma QualifyEachSubquery_loop_acc:
  "QualifyEachSubquery_loop nz var B acc st = Inr (q, s) \<Longrightarrow>
     \<exists>new. q = acc @ new \<and>
       (\<forall>acc'. QualifyEachSubquery_loop nz var B acc' st = Inr (acc' @ new, s))"
proof (induction B arbitrary: acc st)
  case Nil
  then show ?case by simp
next
  case (Cons h B)
  show ?case
  proof (cases "FilterNodeSet h var")
    case (Inl e)
    with Cons.prems show ?thesis by simp
  next
    case (Inr r)
    obtain o1 h1 where r: "r = (o1, h1)" by (cases r)
    show ?thesis
    proof (cases o1)
      case kEndByPredicate
      with Inr r Cons.prems Cons.IH [of acc st] show ?thesis by simp
    next
      case kEndOfRedpath
      show ?thesis
      proof (cases "nz var (GetSubquery h1)")
        case None
        with kEndOfRedpath Inr r Cons.prems Cons.IH [of acc st] show ?thesis by simp
      next
        case (Some d)
        with kEndOfRedpath Inr r Cons.prems
          Cons.IH [of acc "st\<lparr>result := add_data_set (subquery_id (GetSubquery h1)) d (result st)\<rparr>"]
        show ?thesis by simp
      qed
    next
      case kContinue
      with Inr r Cons.prems have "QualifyEachSubquery_loop nz var B (acc @ [h1]) st = Inr (q, s)"
        by simp
      from Cons.IH [OF this] obtain new where
        new: "q = (acc @ [h1]) @ new"
          "\<forall>acc'. QualifyEachSubquery_loop nz var B acc' st = Inr (acc' @ new, s)"
        by blast
      have "q = acc @ (h1 # new) \<and>
        (\<forall>acc'. QualifyEachSubquery_loop nz var (h # B) acc' st = Inr (acc' @ (h1 # new), s))"
      proof (intro conjI allI)
        show "q = acc @ (h1 # new)" using new(1) by simp
        fix acc'
        from new(2) have "QualifyEachSubquery_loop nz var B (acc' @ [h1]) st
            = Inr ((acc' @ [h1]) @ new, s)"
          by blast
        with Inr r kContinue
        show "QualifyEachSubquery_loop nz var (h # B) acc' st = Inr (acc' @ (h1 # new), s)"
          by simp
      qed
      then show ?thesis by blast
    qed
  qed
qed

lemma add_data_set_commute:
  "i \<noteq> j \<Longrightarrow> add_data_set i a (add_data_set j b res) = add_data_set j b (add_data_set i a res)"
  by (auto simp: add_data_set_def fun_upd_twist)

text \<open>The effect of one round of the loop of \<^verbatim>\<open>QualifyEachSubquery\<close>.\<close>

lemma QualifyEachSubquery_loop_single:
  "QualifyEachSubquery_loop nz var [h] acc st = Inr (q, s) \<Longrightarrow>
     \<exists>new upd. q = acc @ new \<and> s = st\<lparr>result := upd (result st)\<rparr> \<and>
       (\<forall>h' \<in> set new. GetSubquery h' = GetSubquery h) \<and> length new \<le> 1 \<and>
       (upd = id \<or> (\<exists>d. upd = add_data_set (subquery_id (GetSubquery h)) d)) \<and>
       (\<forall>acc' st'. QualifyEachSubquery_loop nz var [h] acc' st'
           = Inr (acc' @ new, st'\<lparr>result := upd (result st')\<rparr>))"
proof (cases "FilterNodeSet h var")
  case (Inl e)
  assume "QualifyEachSubquery_loop nz var [h] acc st = Inr (q, s)"
  with Inl show ?thesis by simp
next
  case (Inr r)
  assume run: "QualifyEachSubquery_loop nz var [h] acc st = Inr (q, s)"
  obtain o1 h1 where r: "r = (o1, h1)" by (cases r)
  from Inr r have sq: "GetSubquery h1 = GetSubquery h" by (simp add: FilterNodeSet_GetSubquery)
  show ?thesis
  proof (cases o1)
    case kEndByPredicate
    with Inr r run have "q = acc @ [] \<and> s = st\<lparr>result := id (result st)\<rparr> \<and>
       (\<forall>h' \<in> set []. GetSubquery h' = GetSubquery h) \<and> length ([] :: 'a SubqueryHandle list) \<le> 1 \<and>
       ((id :: ('b, 'c) DelliciusQueryResult \<Rightarrow> _) = id \<or> (\<exists>d. (id :: ('b, 'c) DelliciusQueryResult \<Rightarrow> _) = add_data_set (subquery_id (GetSubquery h)) d)) \<and>
       (\<forall>acc' st'. QualifyEachSubquery_loop nz var [h] acc' st'
           = Inr (acc' @ [], st'\<lparr>result := id (result st')\<rparr>))"
      by simp
    then show ?thesis by blast
  next
    case kContinue
    with Inr r run sq have "q = acc @ [h1] \<and> s = st\<lparr>result := id (result st)\<rparr> \<and>
       (\<forall>h' \<in> set [h1]. GetSubquery h' = GetSubquery h) \<and> length [h1] \<le> 1 \<and>
       ((id :: ('b, 'c) DelliciusQueryResult \<Rightarrow> _) = id \<or> (\<exists>d. (id :: ('b, 'c) DelliciusQueryResult \<Rightarrow> _) = add_data_set (subquery_id (GetSubquery h)) d)) \<and>
       (\<forall>acc' st'. QualifyEachSubquery_loop nz var [h] acc' st'
           = Inr (acc' @ [h1], st'\<lparr>result := id (result st')\<rparr>))"
      by simp
    then show ?thesis by blast
  next
    case kEndOfRedpath
    show ?thesis
    proof (cases "nz var (GetSubquery h)")
      case None
      with kEndOfRedpath Inr r run sq have "q = acc @ [] \<and> s = st\<lparr>result := id (result st)\<rparr> \<and>
       (\<forall>h' \<in> set []. GetSubquery h' = GetSubquery h) \<and> length ([] :: 'a SubqueryHandle list) \<le> 1 \<and>
       ((id :: ('b, 'c) DelliciusQueryResult \<Rightarrow> _) = id \<or> (\<exists>d. (id :: ('b, 'c) DelliciusQueryResult \<Rightarrow> _) = add_data_set (subquery_id (GetSubquery h)) d)) \<and>
       (\<forall>acc' st'. QualifyEachSubquery_loop nz var [h] acc' st'
           = Inr (acc' @ [], st'\<lparr>result := id (result st')\<rparr>))"
        by simp
      then show ?thesis by blast
    next
      case (Some d)
      let ?upd = "add_data_set (subquery_id (GetSubquery h)) d :: ('b, 'c) DelliciusQueryResult \<Rightarrow> _"
      from Some kEndOfRedpath Inr r run sq have "q = acc @ [] \<and> s = st\<lparr>result := ?upd (result st)\<rparr> \<and>
       (\<forall>h' \<in> set []. GetSubquery h' = GetSubquery h) \<and> length ([] :: 'a SubqueryHandle list) \<le> 1 \<and>
       (?upd = id \<or> (\<exists>d'. ?upd = add_data_set (subquery_id (GetSubquery h)) d')) \<and>
       (\<forall>acc' st'. QualifyEachSubquery_loop nz var [h] acc' st'
           = Inr (acc' @ [], st'\<lparr>result := ?upd (result st')\<rparr>))"
        by auto
      then show ?thesis by blast
    qed
  qed
qed

lemma QualifyEachSubquery_loop_pair_swapped:
  assumes ne: "subquery_id (GetSubquery y) \<noteq> subquery_id (GetSubquery h)"
    and run: "QualifyEachSubquery_loop nz var ([y] @ [h]) acc st = Inr (q, s)"
  shows "\<exists>q'. QualifyEachSubquery_loop nz var ([h] @ [y]) acc st = Inr (q', s) \<and> swapped q q'"
proof -
  from QualifyEachSubquery_loop_append_Inr [OF run] obtain q1 s1 where
    y: "QualifyEachSubquery_loop nz var [y] acc st = Inr (q1, s1)"
    and h: "QualifyEachSubquery_loop nz var [h] q1 s1 = Inr (q, s)"
    by blast
  from QualifyEachSubquery_loop_single [OF y] obtain ny uy where
    cy: "q1 = acc @ ny \<and> s1 = st\<lparr>result := uy (result st)\<rparr> \<and>
       (\<forall>h' \<in> set ny. GetSubquery h' = GetSubquery y) \<and> length ny \<le> 1 \<and>
       (uy = id \<or> (\<exists>d. uy = add_data_set (subquery_id (GetSubquery y)) d)) \<and>
       (\<forall>acc' st'. QualifyEachSubquery_loop nz var [y] acc' st'
           = Inr (acc' @ ny, st'\<lparr>result := uy (result st')\<rparr>))"
    by (elim exE) (rule that)
  note ny = cy [THEN conjunct1] cy [THEN conjunct2, THEN conjunct1]
    cy [THEN conjunct2, THEN conjunct2, THEN conjunct1]
    cy [THEN conjunct2, THEN conjunct2, THEN conjunct2, THEN conjunct1]
    cy [THEN conjunct2, THEN conjunct2, THEN conjunct2, THEN conjunct2, THEN conjunct1]
    cy [THEN conjunct2, THEN conjunct2, THEN conjunct2, THEN conjunct2, THEN conjunct2]
  from QualifyEachSubquery_loop_single [OF h] obtain nh uh where
    ch: "q = q1 @ nh \<and> s = s1\<lparr>result := uh (result s1)\<rparr> \<and>
       (\<forall>h' \<in> set nh. GetSubquery h' = GetSubquery h) \<and> length nh \<le> 1 \<and>
       (uh = id \<or> (\<exists>d. uh = add_data_set (subquery_id (GetSubquery h)) d)) \<and>
       (\<forall>acc' st'. QualifyEachSubquery_loop nz var [h] acc' st'
           = Inr (acc' @ nh, st'\<lparr>result := uh (result st')\<rparr>))"
    by (elim exE) (rule that)
  note nh = ch [THEN conjunct1] ch [THEN conjunct2, THEN conjunct1]
    ch [THEN conjunct2, THEN conjunct2, THEN conjunct1]
    ch [THEN conjunct2, THEN conjunct2, THEN conjunct2, THEN conjunct1]
    ch [THEN conjunct2, THEN conjunct2, THEN conjunct2, THEN conjunct2, THEN conjunct1]
    ch [THEN conjunct2, THEN conjunct2, THEN conjunct2, THEN conjunct2, THEN conjunct2]
  from nh(6) [rule_format, of acc st]
  have h1: "QualifyEachSubquery_loop nz var [h] acc st
      = Inr (acc @ nh, st\<lparr>result := uh (result st)\<rparr>)" .
  from ny(6) [rule_format, of "acc @ nh" "st\<lparr>result := uh (result st)\<rparr>"]
  have y1: "QualifyEachSubquery_loop nz var [y] (acc @ nh) (st\<lparr>result := uh (result st)\<rparr>)
      = Inr ((acc @ nh) @ ny,
             (st\<lparr>result := uh (result st)\<rparr>)\<lparr>result := uy (result (st\<lparr>result := uh (result st)\<rparr>))\<rparr>)" .
  have comm: "uy (uh (result st)) = uh (uy (result st))"
  proof (cases "uy = id \<or> uh = id")
    case True
    then show ?thesis by auto
  next
    case False
    with ny(5) nh(5) obtain d e where
      "uy = add_data_set (subquery_id (GetSubquery y)) d"
      "uh = add_data_set (subquery_id (GetSubquery h)) e"
      by blast
    with add_data_set_commute [OF ne, of d e "result st"] show ?thesis by simp
  qed
  have run': "QualifyEachSubquery_loop nz var ([h] @ [y]) acc st
      = Inr (acc @ nh @ ny, st\<lparr>result := uy (uh (result st))\<rparr>)"
    using QualifyEachSubquery_loop_append_Inr_iff [OF h1, of "[y]"] y1
    by (simp del: QualifyEachSubquery_loop.simps)
  have s: "s = st\<lparr>result := uy (uh (result st))\<rparr>"
    using nh(2) ny(2) comm by simp
  have "swapped (acc @ ny @ nh) (acc @ nh @ ny)"
  proof (cases ny)
    case Nil
    then show ?thesis by simp
  next
    case (Cons y' ys)
    with ny(4) have ny1: "ny = [y']" by simp
    show ?thesis
    proof (cases nh)
      case Nil
      then show ?thesis by simp
    next
      case (Cons h' hs')
      with nh(4) have nh1: "nh = [h']" by simp
      from ny1 have "y' \<in> set ny" by simp
      with ny(3) have gy: "GetSubquery y' = GetSubquery y" by (rule bspec)
      from nh1 have "h' \<in> set nh" by simp
      with nh(3) have gh: "GetSubquery h' = GetSubquery h" by (rule bspec)
      from ne have "subquery_id (GetSubquery y') \<noteq> subquery_id (GetSubquery h')"
        unfolding gy gh .
      from swapped_pair [OF this, of acc "[]"]
      have "swapped (acc @ [y'] @ [h']) (acc @ [h'] @ [y'])" by simp
      then show ?thesis unfolding ny1 nh1 .
    qed
  qed
  with nh(1) ny(1) have sw: "swapped q (acc @ nh @ ny)" by simp
  from run' have "QualifyEachSubquery_loop nz var ([h] @ [y]) acc st = Inr (acc @ nh @ ny, s)"
    unfolding s .
  with sw show ?thesis by (intro exI conjI)
qed

lemma QualifyEachSubquery_loop_swapped:
  assumes "swapped hs hs'" and "QualifyEachSubquery_loop nz var hs acc st = Inr (q, s)"
  shows "\<exists>q'. QualifyEachSubquery_loop nz var hs' acc st = Inr (q', s) \<and> swapped q q'"
proof -
  from assms(1) consider "hs = hs'"
    | A y h B where "hs = A @ [y, h] @ B" "hs' = A @ [h, y] @ B"
        "subquery_id (GetSubquery y) \<noteq> subquery_id (GetSubquery h)"
    unfolding swapped_def by blast
  then show ?thesis
  proof cases
    case 1
    with assms(2) show ?thesis by auto
  next
    case 2
    from assms(2) 2(1)
    have "QualifyEachSubquery_loop nz var (A @ (([y] @ [h]) @ B)) acc st = Inr (q, s)"
      by (simp del: QualifyEachSubquery_loop.simps)
    from QualifyEachSubquery_loop_append_Inr [OF this] obtain q1 s1 where
      a: "QualifyEachSubquery_loop nz var A acc st = Inr (q1, s1)"
      and rest: "QualifyEachSubquery_loop nz var (([y] @ [h]) @ B) q1 s1 = Inr (q, s)"
      by blast
    from QualifyEachSubquery_loop_append_Inr [OF rest] obtain q2 s2 where
      yh: "QualifyEachSubquery_loop nz var ([y] @ [h]) q1 s1 = Inr (q2, s2)"
      and b: "QualifyEachSubquery_loop nz var B q2 s2 = Inr (q, s)"
      by blast
    from QualifyEachSubquery_loop_pair_swapped [OF 2(3) yh] obtain q2' where
      hy: "QualifyEachSubquery_loop nz var ([h] @ [y]) q1 s1 = Inr (q2', s2)"
      and sw: "swapped q2 q2'"
      by blast
    from QualifyEachSubquery_loop_acc [OF b] obtain new where
      new: "q = q2 @ new"
        "\<forall>acc'. QualifyEachSubquery_loop nz var B acc' s2 = Inr (acc' @ new, s)"
      by blast
    then have b': "QualifyEachSubquery_loop nz var B q2' s2 = Inr (q2' @ new, s)" by blast
    have "QualifyEachSubquery_loop nz var hs' acc st
        = QualifyEachSubquery_loop nz var (([h] @ [y]) @ B) q1 s1"
      using QualifyEachSubquery_loop_append_Inr_iff [OF a, of "([h] @ [y]) @ B"] 2(2)
      by (simp del: QualifyEachSubquery_loop.simps)
    also have "\<dots> = QualifyEachSubquery_loop nz var B q2' s2"
      by (rule QualifyEachSubquery_loop_append_Inr_iff [OF hy])
    finally have "QualifyEachSubquery_loop nz var hs' acc st = Inr (q2' @ new, s)"
      using b' by simp
    moreover from new(1) swapped_append [OF sw, of new] have "swapped q (q2' @ new)" by simp
    ultimately show ?thesis by blast
  qed
qed

lemma run_swapped:
  fixes ops :: "'v RedfishVariant_ops" and nz :: "'v \<Rightarrow> Subquery \<Rightarrow> 'r option"
    and st :: "('v, 'r, 't) execution"
  shows "RunRecursive ops nz v hs st = Inr st' \<Longrightarrow> swapped hs hs' \<Longrightarrow>
           RunRecursive ops nz v hs' st = Inr st'"
    and "Dispatch ops nz v gs st = Inr st' \<Longrightarrow> groups_swapped gs gs' \<Longrightarrow>
           Dispatch ops nz v gs' st = Inr st'"
    and "Dispatch_members ops nz ms hs st = Inr st' \<Longrightarrow> swapped hs hs' \<Longrightarrow>
           Dispatch_members ops nz ms hs' st = Inr st'"
    and "QualifyEachSubquery ops nz v hs st = Inr st' \<Longrightarrow> swapped hs hs' \<Longrightarrow>
           QualifyEachSubquery ops nz v hs' st = Inr st'"
proof (induction ops nz v hs st and ops nz v gs st and ops nz ms hs st and ops nz v hs st
       arbitrary: st' hs' and st' gs' and st' hs' and st' hs'
       rule: RunRecursive_Dispatch_Dispatch_members_QualifyEachSubquery.induct)
  case (1 ops normalizer variant handles st)
  show ?case
  proof (cases "DeduplicateExpression handles")
    case (Inl e)
    with 1(2) show ?thesis by (simp add: RunRecursive.simps)
  next
    case (Inr gs)
    from DeduplicateExpression_swapped [OF 1(3) Inr] obtain gs' where
      d': "DeduplicateExpression hs' = Inr gs'" and sw: "groups_swapped gs gs'"
      by blast
    show ?thesis
    proof (cases "gs = []")
      case True
      with groups_swapped_Nil [OF sw] have "gs' = []" by simp
      with True Inr d' 1(2) show ?thesis by (simp add: RunRecursive.simps)
    next
      case False
      with groups_swapped_Nil [OF sw] have ne': "gs' \<noteq> []" by simp
      from 1(2) Inr False have "Dispatch ops normalizer variant gs st = Inr st'"
        by (simp add: RunRecursive.simps)
      from 1(1) [OF Inr False this sw] d' ne' show ?thesis
        by (simp add: RunRecursive.simps)
    qed
  qed
next
  case (2 ops normalizer var st)
  then show ?case by (simp add: groups_swapped_def)
next
  case (3 ops normalizer var resource_name handles rest st)
  let ?x = "Get ops var resource_name"
  let ?xa = "st\<lparr>fetched := fetched st @ [(var, resource_name)]\<rparr>"
  from 3(7) obtain g' rest' where gs': "gs' = (resource_name, g') # rest'"
    and sw: "swapped handles g'" and swr: "groups_swapped rest rest'"
    by (auto simp: groups_swapped_Cons)
  show ?case
  proof (cases "AsObject ops ?x")
    case False
    with 3(6) have "Dispatch ops normalizer var rest ?xa = Inr st'"
      by (simp add: Let_def)
    from 3(1) [OF refl refl False this swr] False show ?thesis
      unfolding gs' by (simp add: Let_def)
  next
    case True
    then have nn: "\<not> \<not> AsObject ops ?x" by simp
    show ?thesis
    proof (cases "AsIterable ops ?x")
      case None
      show ?thesis
      proof (cases "QualifyEachSubquery ops normalizer ?x handles ?xa")
        case (Inl e)
        with 3(6) True None show ?thesis by (simp add: Let_def)
      next
        case (Inr b)
        with 3(6) True None have r: "Dispatch ops normalizer var rest b = Inr st'"
          by (simp add: Let_def)
        from 3(2) [OF refl refl nn None Inr sw] 3(3) [OF refl refl nn None Inr r swr]
          True None
        show ?thesis unfolding gs' by (simp add: Let_def)
      qed
    next
      case (Some ms)
      show ?thesis
      proof (cases "Dispatch_members ops normalizer ms handles ?xa")
        case (Inl e)
        with 3(6) True Some show ?thesis by (simp add: Let_def)
      next
        case (Inr b)
        with 3(6) True Some have r: "Dispatch ops normalizer var rest b = Inr st'"
          by (simp add: Let_def)
        from 3(4) [OF refl refl nn Some Inr sw] 3(5) [OF refl refl nn Some Inr r swr]
          True Some
        show ?thesis unfolding gs' by (simp add: Let_def)
      qed
    qed
  qed
next
  case (4 ops normalizer handles st)
  then show ?case by simp
next
  case (5 ops normalizer member rest handles st)
  show ?case
  proof (cases "QualifyEachSubquery ops normalizer member handles st")
    case (Inl e)
    with 5(3) show ?thesis by simp
  next
    case (Inr b)
    with 5(3) have r: "Dispatch_members ops normalizer rest handles b = Inr st'" by simp
    from 5(1) [OF Inr 5(4)] 5(2) [OF Inr r 5(4)] show ?thesis by simp
  qed
next
  case (6 ops normalizer var handles st)
  show ?case
  proof (cases "QualifyEachSubquery_loop normalizer var handles [] st")
    case (Inl e)
    with 6(2) show ?thesis by (simp add: QualifyEachSubquery.simps)
  next
    case (Inr b)
    obtain q s where b: "b = (q, s)" by (cases b)
    from Inr b have l: "QualifyEachSubquery_loop normalizer var handles [] st = Inr (q, s)"
      by simp
    from QualifyEachSubquery_loop_swapped [OF 6(3) l] obtain q' where
      l': "QualifyEachSubquery_loop normalizer var hs' [] st = Inr (q', s)"
      and sw: "swapped q q'"
      by blast
    show ?thesis
    proof (cases "q = []")
      case True
      with swapped_Nil [OF sw] have "q' = []" by simp
      with True l l' 6(2) show ?thesis by (simp add: QualifyEachSubquery.simps)
    next
      case False
      with swapped_Nil [OF sw] have ne': "q' \<noteq> []" by simp
      from 6(2) l False have "RunRecursive ops normalizer var q s = Inr st'"
        by (simp add: QualifyEachSubquery.simps)
      from 6(1) [OF Inr b [symmetric] False this sw] l' ne' show ?thesis
        by (simp add: QualifyEachSubquery.simps)
    qed
  qed
qed

lemma swapped_sym: "swapped hs hs' \<Longrightarrow> swapped hs' hs"
proof -
  assume "swapped hs hs'"
  then consider "hs = hs'"
    | A y h B where "hs = A @ [y, h] @ B" "hs' = A @ [h, y] @ B"
        "subquery_id (GetSubquery y) \<noteq> subquery_id (GetSubquery h)"
    unfolding swapped_def by blast
  then show ?thesis
  proof cases
    case 1
    then show ?thesis by simp
  next
    case 2
    from 2(3) have "subquery_id (GetSubquery h) \<noteq> subquery_id (GetSubquery y)" by simp
    from swapped_pair [OF this, of A B] show ?thesis unfolding 2(1,2) .
  qed
qed

lemma swapped_star_sym: "rtranclp swapped hs hs' \<Longrightarrow> rtranclp swapped hs' hs"
proof (induction rule: rtranclp_induct)
  case base
  show ?case by simp
next
  case (step y z)
  from swapped_sym [OF step.hyps(2)] step.IH show ?case
    by (rule converse_rtranclp_into_rtranclp)
qed

lemma swapped_star_prepend: "rtranclp swapped g g' \<Longrightarrow> rtranclp swapped (C @ g) (C @ g')"
proof (induction rule: rtranclp_induct)
  case base
  show ?case by simp
next
  case (step y z)
  from step.IH swapped_prepend [OF step.hyps(2), of C] show ?case
    by (rule rtranclp.rtrancl_into_rtrancl)
qed

lemma swapped_star_move:
  assumes "\<forall>x \<in> set A. subquery_id (GetSubquery x) \<noteq> subquery_id (GetSubquery h)"
  shows "rtranclp swapped (h # A @ B) (A @ h # B)"
  using assms
proof (induction A)
  case Nil
  show ?case by simp
next
  case (Cons a A)
  from Cons.prems have "subquery_id (GetSubquery h) \<noteq> subquery_id (GetSubquery a)" by auto
  from swapped_pair [OF this, of "[]" "A @ B"]
  have first: "swapped (h # (a # A) @ B) (a # h # A @ B)" by simp
  from Cons.prems have "\<forall>x \<in> set A. subquery_id (GetSubquery x) \<noteq> subquery_id (GetSubquery h)"
    by simp
  from swapped_star_prepend [OF Cons.IH [OF this], of "[a]"]
  have "rtranclp swapped (a # h # A @ B) ((a # A) @ h # B)" by simp
  with first show ?case by (rule converse_rtranclp_into_rtranclp)
qed

lemma swapped_star_partition:
  "rtranclp swapped hs
     (filter (\<lambda>h. subquery_id (GetSubquery h) = sid) hs
        @ filter (\<lambda>h. subquery_id (GetSubquery h) \<noteq> sid) hs)"
proof (induction hs)
  case Nil
  show ?case by simp
next
  case (Cons h hs)
  let ?P = "\<lambda>h. subquery_id (GetSubquery h) = sid"
  let ?N = "\<lambda>h. subquery_id (GetSubquery h) \<noteq> sid"
  from swapped_star_prepend [OF Cons.IH, of "[h]"]
  have step: "rtranclp swapped (h # hs) (h # filter ?P hs @ filter ?N hs)" by simp
  show ?case
  proof (cases "?P h")
    case True
    with step show ?thesis by simp
  next
    case False
    then have "\<forall>x \<in> set (filter ?P hs).
        subquery_id (GetSubquery x) \<noteq> subquery_id (GetSubquery h)"
      by auto
    from swapped_star_move [OF this, of "filter ?N hs"]
    have "rtranclp swapped (h # filter ?P hs @ filter ?N hs) (filter ?P hs @ h # filter ?N hs)" .
    with step have "rtranclp swapped (h # hs) (filter ?P hs @ h # filter ?N hs)"
      by (rule rtranclp_trans)
    with False show ?thesis by simp
  qed
qed

lemma RunRecursive_swapped_star:
  fixes ops :: "'v RedfishVariant_ops" and nz :: "'v \<Rightarrow> Subquery \<Rightarrow> 'r option"
    and st :: "('v, 'r, 't) execution"
  shows "rtranclp swapped hs hs' \<Longrightarrow> RunRecursive ops nz v hs st = Inr st' \<Longrightarrow>
     RunRecursive ops nz v hs' st = Inr st'"
proof (induction rule: rtranclp_induct)
  case base
  then show ?case .
next
  case (step y z)
  from run_swapped(1) [OF step.IH [OF step.prems] step.hyps(2)] show ?case .
qed

lemma Run_swapped_star:
  fixes ops :: "'v RedfishVariant_ops" and nz :: "'v \<Rightarrow> Subquery \<Rightarrow> 'r option"
    and st :: "('v, 'r, 't) execution"
  assumes sw: "rtranclp swapped hs hs'"
    and run: "Run ops nz \<lparr>plan_id = qid, subquery_handles = hs\<rparr> v clock st = Inr st'"
  shows "Run ops nz \<lparr>plan_id = qid, subquery_handles = hs'\<rparr> v clock st = Inr st'"
proof -
  let ?s1 = "case clock 0 of
                   Some timestamp \<Rightarrow>
                     st\<lparr>result := (result st)\<lparr>start_timestamp := Some timestamp\<rparr>\<rparr>
                 | None \<Rightarrow> st"
  let ?s2 = "?s1\<lparr>result := (result ?s1)\<lparr>query_ids := query_ids (result ?s1) @ [qid]\<rparr>\<rparr>"
  show ?thesis
  proof (cases "RunRecursive ops nz v hs ?s2")
    case (Inl e)
    with run show ?thesis by (simp add: Run_def Let_def)
  next
    case (Inr s3)
    from RunRecursive_swapped_star [OF sw Inr]
    have "RunRecursive ops nz v hs' ?s2 = Inr s3" .
    with Inr run show ?thesis by (simp add: Run_def Let_def)
  qed
qed

lemma collect_handles_Inr:
  "collect_handles sqs acc = Inr (hs :: 'v SubqueryHandle list) \<longleftrightarrow>
     (\<forall>s \<in> set sqs. \<not> isl (NextNodeInRedpath (SubqueryHandle s :: 'v SubqueryHandle))) \<and>
     hs = acc @ map SubqueryHandle
            (filter (\<lambda>s. NextNodeInRedpath (SubqueryHandle s :: 'v SubqueryHandle) \<noteq> Inr None)
               sqs)"
proof (induction sqs arbitrary: acc)
  case Nil
  show ?case by auto
next
  case (Cons sq sqs)
  show ?case
  proof (cases "NextNodeInRedpath (SubqueryHandle sq :: 'v SubqueryHandle)")
    case (Inl e)
    then show ?thesis by (simp add: Let_def)
  next
    case (Inr r)
    show ?thesis
    proof (cases r)
      case None
      with Inr Cons.IH [of acc] show ?thesis by (simp add: Let_def)
    next
      case (Some n)
      with Inr Cons.IH [of "acc @ [SubqueryHandle sq]"] show ?thesis by (simp add: Let_def)
    qed
  qed
qed
section \<open>A duplicated subquery\<close>

lemma twice_simps [simp]:
  "twice [] = []" "twice (x # xs) = x # x # twice xs" "twice (xs @ ys) = twice xs @ twice ys"
  by (simp_all add: twice_def)

lemma length_twice: "length (twice xs) = 2 * length xs"
  by (induction xs) simp_all

lemma double_bucket_fresh:
  "subquery_output_by_id (result st) sid = None \<Longrightarrow> double_bucket sid st = st"
proof -
  assume fresh: "subquery_output_by_id (result st) sid = None"
  have "(\<lambda>i. if i = sid then map_option twice (subquery_output_by_id (result st) i)
             else subquery_output_by_id (result st) i) = subquery_output_by_id (result st)"
    using fresh by (auto simp: fun_eq_iff)
  then show ?thesis by (simp add: double_bucket_def)
qed


lemma double_bucket_fetch:
  "double_bucket sid (st\<lparr>fetched := fetched st @ [e]\<rparr>)
     = (double_bucket sid st)\<lparr>fetched := fetched (double_bucket sid st) @ [e]\<rparr>"
  by (simp add: double_bucket_def cong: if_cong)

lemma double_bucket_once:
  "subquery_id sq \<noteq> sid \<Longrightarrow>
   (double_bucket sid st)\<lparr>result := add_data_set (subquery_id sq) r (result (double_bucket sid st))\<rparr>
     = double_bucket sid (st\<lparr>result := add_data_set (subquery_id sq) r (result st)\<rparr>)"
  by (auto simp: double_bucket_def add_data_set_def fun_eq_iff cong: if_cong)

lemma double_bucket_twice:
  "subquery_id sq = sid \<Longrightarrow>
   (double_bucket sid st)\<lparr>result := add_data_set (subquery_id sq) r
       (add_data_set (subquery_id sq) r (result (double_bucket sid st)))\<rparr>
     = double_bucket sid (st\<lparr>result := add_data_set (subquery_id sq) r (result st)\<rparr>)"
  by (auto simp: double_bucket_def add_data_set_def fun_eq_iff split: option.splits cong: if_cong)

lemma RunRecursive_double_bucket:
  "RunRecursive ops nz v (twice_handles (\<lambda>sq. subquery_id sq = sid) hs) (double_bucket sid st)
     = map_sum id (double_bucket sid) (RunRecursive ops nz v hs st)"
proof (rule run_twice_handles(1)
         [where f = "double_bucket sid" and P = "\<lambda>sq. subquery_id sq = sid", OF _ _ _ refl])
  show "\<And>st e. double_bucket sid (st\<lparr>fetched := fetched st @ [e]\<rparr>)
       = (double_bucket sid st)\<lparr>fetched := fetched (double_bucket sid st) @ [e]\<rparr>"
    by (rule double_bucket_fetch)
  show "\<And>sq r st. \<not> subquery_id sq = sid \<Longrightarrow>
      (double_bucket sid st)\<lparr>result := add_data_set (subquery_id sq) r (result (double_bucket sid st))\<rparr>
        = double_bucket sid (st\<lparr>result := add_data_set (subquery_id sq) r (result st)\<rparr>)"
    by (rule double_bucket_once)
  show "\<And>sq r st. subquery_id sq = sid \<Longrightarrow>
      (double_bucket sid st)\<lparr>result := add_data_set (subquery_id sq) r
                  (add_data_set (subquery_id sq) r (result (double_bucket sid st)))\<rparr>
        = double_bucket sid (st\<lparr>result := add_data_set (subquery_id sq) r (result st)\<rparr>)"
    by (rule double_bucket_twice)
qed

lemma GetSubquery_SubqueryHandle [simp]: "GetSubquery (SubqueryHandle sq) = sq"
  by (simp add: SubqueryHandle_def split: prod.splits)

lemma Run_double_bucket:
  "Run ops nz (p\<lparr>subquery_handles := twice_handles (\<lambda>sq. subquery_id sq = sid) (subquery_handles p)\<rparr>)
       v clock (double_bucket sid st)
     = map_sum id (double_bucket sid) (Run ops nz p v clock st)"
proof -
  let ?P = "\<lambda>sq. subquery_id sq = sid"
  let ?s1 = "case clock 0 of
                   Some timestamp \<Rightarrow>
                     st\<lparr>result := (result st)\<lparr>start_timestamp := Some timestamp\<rparr>\<rparr>
                 | None \<Rightarrow> st"
  let ?s2 = "?s1\<lparr>result := (result ?s1)\<lparr>query_ids := query_ids (result ?s1) @ [plan_id p]\<rparr>\<rparr>"
  let ?d1 = "case clock 0 of
                   Some timestamp \<Rightarrow>
                     (double_bucket sid st)\<lparr>result := (result (double_bucket sid st))\<lparr>start_timestamp := Some timestamp\<rparr>\<rparr>
                 | None \<Rightarrow> double_bucket sid st"
  let ?d2 = "?d1\<lparr>result := (result ?d1)\<lparr>query_ids := query_ids (result ?d1) @ [plan_id p]\<rparr>\<rparr>"
  have d2: "?d2 = double_bucket sid ?s2"
    by (cases "clock 0") (simp_all add: double_bucket_def cong: if_cong)
  have rr: "RunRecursive ops nz v (twice_handles ?P (subquery_handles p)) ?d2
     = map_sum id (double_bucket sid) (RunRecursive ops nz v (subquery_handles p) ?s2)"
    unfolding d2 by (rule RunRecursive_double_bucket)
  have sel: "subquery_handles (p\<lparr>subquery_handles := twice_handles ?P (subquery_handles p)\<rparr>)
        = twice_handles ?P (subquery_handles p)"
    "plan_id (p\<lparr>subquery_handles := twice_handles ?P (subquery_handles p)\<rparr>) = plan_id p"
    by simp_all
  show ?thesis
    unfolding Run_def Let_def sel rr
    by (cases "RunRecursive ops nz v (subquery_handles p) ?s2"; cases "clock 1")
       (simp_all add: double_bucket_def cong: if_cong)
qed


lemma twice_handles_others:
  "\<forall>h \<in> set hs. \<not> P (GetSubquery h) \<Longrightarrow> twice_handles P hs = hs"
  by (induction hs) simp_all

lemma filter_handles:
  "filter (\<lambda>h. Q (GetSubquery h)) (map SubqueryHandle sqs) = map SubqueryHandle (filter Q sqs)"
  by (induction sqs) simp_all

text \<open>
  Claim C8. In the first query \<open>sq\<close> is the only subquery with its id; in the second
  query \<open>sq\<close> occurs exactly twice, at any two positions, nothing else has its id, and
  the subqueries of the other ids are those of the first query in the same order. When
  planning and running the first succeeds from a result without a bucket for the id,
  so does planning and running the second, and the one bucket of the id then holds
  each record of the first run twice: its length is exactly doubled. The other
  buckets are the same.
\<close>

theorem C8_duplicated_subquery_doubles_its_bucket:
  fixes p1 :: "'v QueryPlanner" and st :: "('v, 'r, 't) execution"
  assumes one: "filter (\<lambda>s. subquery_id s = subquery_id sq) one = [sq]"
    and two: "filter (\<lambda>s. subquery_id s = subquery_id sq) two = [sq, sq]"
    and others: "filter (\<lambda>s. subquery_id s \<noteq> subquery_id sq) two
                   = filter (\<lambda>s. subquery_id s \<noteq> subquery_id sq) one"
    and fresh: "subquery_output_by_id (result st) (subquery_id sq) = None"
    and plan: "QueryPlanner \<lparr>query_id = qid, subquery = one\<rparr> = Inr p1"
    and run: "Run ops nz p1 v clock st = Inr st1"
  shows "\<exists>p2 st2.
      QueryPlanner \<lparr>query_id = qid, subquery = two\<rparr> = Inr p2 \<and>
      Run ops nz p2 v clock st = Inr st2 \<and>
      subquery_output_by_id (result st2) (subquery_id sq)
        = map_option twice (subquery_output_by_id (result st1) (subquery_id sq)) \<and>
      map_option length (subquery_output_by_id (result st2) (subquery_id sq))
        = map_option (\<lambda>n. 2 * n)
            (map_option length (subquery_output_by_id (result st1) (subquery_id sq))) \<and>
      (\<forall>i. i \<noteq> subquery_id sq \<longrightarrow>
         subquery_output_by_id (result st2) i = subquery_output_by_id (result st1) i)"
proof -
  let ?sid = "subquery_id sq"
  let ?P = "\<lambda>s. subquery_id s = ?sid"
  let ?N = "\<lambda>s. subquery_id s \<noteq> ?sid"
  let ?V = "\<lambda>s. NextNodeInRedpath (SubqueryHandle s :: 'v SubqueryHandle) \<noteq> Inr None"
  let ?H1 = "map SubqueryHandle (filter ?V one) :: 'v SubqueryHandle list"
  let ?H2 = "map SubqueryHandle (filter ?V two) :: 'v SubqueryHandle list"
  define copy :: "'v SubqueryHandle list" where "copy = map SubqueryHandle (filter ?V [sq])"
  define rest :: "'v SubqueryHandle list"
    where "rest = map SubqueryHandle (filter ?V (filter ?N one))"
  let ?p2 = "\<lparr>plan_id = qid, subquery_handles = ?H2\<rparr>"
  have set_one: "set one = set (filter ?P one) \<union> set (filter ?N one)" by auto
  have set_two: "set two = set (filter ?P two) \<union> set (filter ?N two)" by auto
  have same: "set two = set one"
    unfolding set_one set_two one two others by simp
  from plan have c1: "collect_handles one [] = Inr (subquery_handles p1)"
    and id1: "plan_id p1 = qid"
    by (auto simp: QueryPlanner_def split: sum.splits)
  from c1 have ok: "\<forall>s \<in> set one. \<not> isl (NextNodeInRedpath (SubqueryHandle s :: 'v SubqueryHandle))"
    and h1: "subquery_handles p1 = ?H1"
    by (simp_all add: collect_handles_Inr)
  from id1 h1 have p1: "p1 = \<lparr>plan_id = qid, subquery_handles = ?H1\<rparr>" by simp
  from ok same have "collect_handles two [] = Inr ?H2"
    by (simp add: collect_handles_Inr)
  then have plan2: "QueryPlanner \<lparr>query_id = qid, subquery = two\<rparr> = Inr ?p2"
    by (simp add: QueryPlanner_def)
  have split: "filter (\<lambda>h. Q (GetSubquery h)) (map SubqueryHandle (filter ?V xs))
      = (map SubqueryHandle (filter ?V (filter Q xs)) :: 'v SubqueryHandle list)" for Q xs
  proof -
    have a: "filter (\<lambda>h. Q (GetSubquery h)) (map SubqueryHandle (filter ?V xs))
        = (map SubqueryHandle (filter Q (filter ?V xs)) :: 'v SubqueryHandle list)"
      by (rule filter_handles [of Q "filter ?V xs"])
    have b: "filter Q (filter ?V xs) = filter ?V (filter Q xs)"
      by (simp add: conj_commute)
    show ?thesis unfolding a b ..
  qed
  from split [of ?P one]
  have part1: "filter (\<lambda>h. ?P (GetSubquery h)) ?H1 = copy" unfolding one copy_def .
  from split [of ?N one]
  have rest1: "filter (\<lambda>h. ?N (GetSubquery h)) ?H1 = rest" unfolding rest_def .
  have copy2: "map SubqueryHandle (filter ?V [sq, sq]) = twice_handles ?P copy"
    unfolding copy_def by simp
  from split [of ?P two]
  have part2: "filter (\<lambda>h. ?P (GetSubquery h)) ?H2 = twice_handles ?P copy"
    unfolding two copy2 .
  from split [of ?N two]
  have rest2: "filter (\<lambda>h. ?N (GetSubquery h)) ?H2 = rest" unfolding others rest_def .
  have keep: "twice_handles ?P rest = rest"
    unfolding rest_def by (rule twice_handles_others) simp
  from swapped_star_partition [of ?H1 ?sid]
  have "rtranclp swapped ?H1 (copy @ rest)" unfolding part1 rest1 .
  from Run_swapped_star [OF this run [unfolded p1]]
  have run1: "Run ops nz \<lparr>plan_id = qid, subquery_handles = copy @ rest\<rparr> v clock st = Inr st1" .
  from Run_double_bucket
        [where ops = ops and nz = nz and p = "\<lparr>plan_id = qid, subquery_handles = copy @ rest\<rparr>"
           and sid = ?sid and v = v and clock = clock and st = st]
  have run2: "Run ops nz \<lparr>plan_id = qid, subquery_handles = twice_handles ?P copy @ rest\<rparr>
       v clock st = Inr (double_bucket ?sid st1)"
    unfolding run1 double_bucket_fresh [OF fresh] by (simp add: keep)
  from swapped_star_partition [of ?H2 ?sid]
  have "rtranclp swapped ?H2 (twice_handles ?P copy @ rest)" unfolding part2 rest2 .
  then have "rtranclp swapped (twice_handles ?P copy @ rest) ?H2" by (rule swapped_star_sym)
  from Run_swapped_star [OF this run2]
  have run3: "Run ops nz ?p2 v clock st = Inr (double_bucket ?sid st1)" .
  have "subquery_output_by_id (result (double_bucket ?sid st1)) ?sid
        = map_option twice (subquery_output_by_id (result st1) ?sid)"
    by (simp add: double_bucket_def)
  moreover have "map_option length (subquery_output_by_id (result (double_bucket ?sid st1)) ?sid)
        = map_option (\<lambda>n. 2 * n) (map_option length (subquery_output_by_id (result st1) ?sid))"
    by (simp add: double_bucket_def option.map_comp comp_def length_twice)
  moreover have "\<forall>i. i \<noteq> ?sid \<longrightarrow>
      subquery_output_by_id (result (double_bucket ?sid st1)) i
        = subquery_output_by_id (result st1) i"
    by (simp add: double_bucket_def)
  ultimately show ?thesis using plan2 run3 by blast
qed

lemma example_plan:
  "(QueryPlanner \<lparr>query_id = ''Q'', subquery = [sq_status] @ [sq_chassis] @ []\<rparr>
      :: fault + resource QueryPlanner)
     = Inr \<lparr>plan_id = ''Q'',
            subquery_handles = [SubqueryHandle sq_status, SubqueryHandle sq_chassis]\<rparr>"
  by (simp add: compile_simps handle_simps QueryPlanner_def example_simps)

lemma example_run:
  "map_sum id (\<lambda>st. (subquery_output_by_id (result st) ''S1'',
                       subquery_output_by_id (result st) ''S2'', map snd (fetched st)))
     (Run resource_ops normalize_view
        \<lparr>plan_id = ''Q'',
         subquery_handles = [SubqueryHandle sq_status, SubqueryHandle sq_chassis]\<rparr>
        service_root (\<lambda>k. None :: nat option) start)
     = Inr (Some [chassis1, chassis2], Some [status_leaf], [''Chassis'', ''Status'', ''Status''])"
  by (simp add: compile_simps handle_simps run_simps example_simps)

lemma example_plan_apart:
  "(QueryPlanner \<lparr>query_id = ''Q'', subquery = [sq_chassis, sq_status]\<rparr>
      :: fault + resource QueryPlanner)
     = Inr \<lparr>plan_id = ''Q'',
            subquery_handles = [SubqueryHandle sq_chassis, SubqueryHandle sq_status]\<rparr>"
  by (simp add: compile_simps handle_simps QueryPlanner_def example_simps)

lemma example_run_apart:
  "map_sum id (\<lambda>st. (subquery_output_by_id (result st) ''S1'',
                       subquery_output_by_id (result st) ''S2'', map snd (fetched st)))
     (Run resource_ops normalize_view
        \<lparr>plan_id = ''Q'',
         subquery_handles = [SubqueryHandle sq_chassis, SubqueryHandle sq_status]\<rparr>
        service_root (\<lambda>k. None :: nat option) start)
     = Inr (Some [chassis1, chassis2], Some [status_leaf], [''Chassis'', ''Status'', ''Status''])"
  by (simp add: compile_simps handle_simps run_simps example_simps)

theorem C8_duplicated_subquery_witness:
  "\<exists>p1 st1 p2 st2.
     (QueryPlanner \<lparr>query_id = ''Q'', subquery = [sq_chassis, sq_status]\<rparr>
        :: fault + resource QueryPlanner) = Inr p1 \<and>
     Run resource_ops normalize_view p1 service_root (\<lambda>k. None :: nat option) start = Inr st1 \<and>
     QueryPlanner \<lparr>query_id = ''Q'', subquery = [sq_chassis, sq_status, sq_chassis]\<rparr>
        = Inr p2 \<and>
     Run resource_ops normalize_view p2 service_root (\<lambda>k. None :: nat option) start = Inr st2 \<and>
     subquery_output_by_id (result st1) ''S1'' = Some [chassis1, chassis2] \<and>
     subquery_output_by_id (result st2) ''S1'' = Some [chassis1, chassis1, chassis2, chassis2] \<and>
     subquery_output_by_id (result st2) ''S2'' = subquery_output_by_id (result st1) ''S2''"
proof -
  let ?p1 = "\<lparr>plan_id = ''Q'',
              subquery_handles =
                [SubqueryHandle sq_chassis, SubqueryHandle sq_status :: resource SubqueryHandle]\<rparr>"
  let ?run = "Run resource_ops normalize_view ?p1 service_root (\<lambda>k. None :: nat option) start"
  obtain st1 where run: "?run = Inr st1"
    using example_run_apart by (cases ?run) simp_all
  with example_run_apart have s1: "subquery_output_by_id (result st1) ''S1'' = Some [chassis1, chassis2]"
    by simp
  have one: "filter (\<lambda>s. subquery_id s = subquery_id sq_chassis) [sq_chassis, sq_status]
      = [sq_chassis]"
    by (simp add: sq_status_def sq_chassis_def)
  have two: "filter (\<lambda>s. subquery_id s = subquery_id sq_chassis)
        [sq_chassis, sq_status, sq_chassis]
      = [sq_chassis, sq_chassis]"
    by (simp add: sq_status_def sq_chassis_def)
  have others: "filter (\<lambda>s. subquery_id s \<noteq> subquery_id sq_chassis)
        [sq_chassis, sq_status, sq_chassis]
      = filter (\<lambda>s. subquery_id s \<noteq> subquery_id sq_chassis) [sq_chassis, sq_status]"
    by (simp add: sq_status_def sq_chassis_def)
  have fresh: "subquery_output_by_id
      (result (start :: (resource, resource, nat) execution)) (subquery_id sq_chassis) = None"
    by (simp add: start_def empty_result_def)
  have other: "''S2'' \<noteq> subquery_id sq_chassis" by (simp add: sq_chassis_def)
  from C8_duplicated_subquery_doubles_its_bucket [OF one two others fresh example_plan_apart run]
  obtain p2 st2 where r:
    "QueryPlanner \<lparr>query_id = ''Q'', subquery = [sq_chassis, sq_status, sq_chassis]\<rparr>
       = Inr p2"
    "Run resource_ops normalize_view p2 service_root (\<lambda>k. None :: nat option) start = Inr st2"
    "subquery_output_by_id (result st2) (subquery_id sq_chassis)
       = map_option twice (subquery_output_by_id (result st1) (subquery_id sq_chassis))"
    "\<forall>i. i \<noteq> subquery_id sq_chassis \<longrightarrow>
       subquery_output_by_id (result st2) i = subquery_output_by_id (result st1) i"
    by blast
  from r(3) s1
  have d: "subquery_output_by_id (result st2) ''S1''
      = Some [chassis1, chassis1, chassis2, chassis2]"
    by (simp add: sq_chassis_def)
  from r(4) other
  have o: "subquery_output_by_id (result st2) ''S2'' = subquery_output_by_id (result st1) ''S2''"
    by blast
  from example_plan_apart run r(1) r(2) s1 d o show ?thesis by blast
qed
section \<open>The cursor stays within the steps\<close>

lemma group_handles_simps [simp]:
  "group_handles [] = {}"
  "group_handles ((n, hs) # gs) = set hs \<union> group_handles gs"
  by (simp_all add: group_handles_def)

lemma group_handles_push_back [simp]:
  "group_handles (push_back k h m) = insert h (group_handles m)"
  by (induction k h m rule: push_back.induct) auto

lemma cursor_in_range_deref:
  "cursor_in_range h \<Longrightarrow> \<exists>i. iter h = Some i \<and> i < length (steps_in_redpath h) \<and>
     deref h = Inr (steps_in_redpath h ! i)"
  by (auto simp: cursor_in_range_def deref_def split: option.splits)

lemma cursor_in_range_NextNodeInRedpath:
  "cursor_in_range h \<Longrightarrow> \<exists>r. NextNodeInRedpath h = Inr r"
  by (auto simp: NextNodeInRedpath_def dest: cursor_in_range_deref)

lemma DeduplicateExpression_loop_handles:
  "DeduplicateExpression_loop hs m = Inr gs \<Longrightarrow> group_handles gs \<subseteq> set hs \<union> group_handles m"
proof (induction hs arbitrary: m)
  case Nil
  then show ?case by simp
next
  case (Cons h hs)
  then show ?case
    by (cases "NextNodeInRedpath h")
       (fastforce simp del: push_back.simps split: option.splits)+
qed

lemma DeduplicateExpression_handles:
  "DeduplicateExpression hs = Inr gs \<Longrightarrow> group_handles gs \<subseteq> set hs"
  using DeduplicateExpression_loop_handles [of hs "[]" gs]
  by (simp add: DeduplicateExpression_def)

lemma DeduplicateExpression_loop_in_range:
  "\<forall>h \<in> set hs. cursor_in_range h \<Longrightarrow> \<exists>gs. DeduplicateExpression_loop hs m = Inr gs"
proof (induction hs arbitrary: m)
  case Nil
  show ?case by simp
next
  case (Cons h hs)
  then obtain r where "NextNodeInRedpath h = Inr r"
    using cursor_in_range_NextNodeInRedpath [of h] by auto
  with Cons show ?case by (cases r) (simp_all del: push_back.simps)
qed

lemma FilterNodeSet_in_range:
  assumes "cursor_in_range h"
  shows "\<exists>s h'. FilterNodeSet h var = Inr (s, h') \<and> cursor_in_range h' \<and>
           (s = kContinue \<longrightarrow> iter h' = map_option Suc (iter h)) \<and>
           (s \<noteq> kContinue \<longrightarrow> h' = h)"
proof -
  from cursor_in_range_deref [OF assms] obtain i where
    i: "iter h = Some i" "i < length (steps_in_redpath h)"
       "deref h = Inr (steps_in_redpath h ! i)"
    by blast
  let ?steps = "steps_in_redpath h"
  have ne: "?steps \<noteq> []" using i(2) by auto
  show ?thesis
  proof (cases "snd (?steps ! i) var")
    case False
    with i assms show ?thesis by (simp add: FilterNodeSet_def)
  next
    case True
    show ?thesis
    proof (cases "fst (?steps ! i) = fst (last ?steps)")
      case same: True
      with True i ne assms show ?thesis by (simp add: FilterNodeSet_def)
    next
      case other: False
      then have "i \<noteq> length ?steps - 1"
        using ne by (auto simp: last_conv_nth)
      with i(2) have "Suc i < length ?steps" by arith
      with True other i show ?thesis
        by (simp add: FilterNodeSet_def cursor_in_range_def)
    qed
  qed
qed

lemma QualifyEachSubquery_loop_in_range:
  "\<forall>h \<in> set hs. cursor_in_range h \<Longrightarrow> \<forall>h \<in> set acc. cursor_in_range h \<Longrightarrow>
     \<exists>q st'. QualifyEachSubquery_loop nz var hs acc st = Inr (q, st') \<and>
       (\<forall>h \<in> set q. cursor_in_range h)"
proof (induction hs arbitrary: acc st)
  case Nil
  then show ?case by simp
next
  case (Cons h hs)
  from Cons.prems(1) have "cursor_in_range h" by simp
  from FilterNodeSet_in_range [OF this, of var] obtain s h' where
    f: "FilterNodeSet h var = Inr (s, h')" and r: "cursor_in_range h'"
    by blast
  from Cons.prems have hs: "\<forall>h \<in> set hs. cursor_in_range h" by simp
  show ?case
  proof (cases s)
    case kEndByPredicate
    with f Cons.IH [OF hs Cons.prems(2), of st] show ?thesis by simp
  next
    case kEndOfRedpath
    show ?thesis
    proof (cases "nz var (GetSubquery h')")
      case None
      with kEndOfRedpath f Cons.IH [OF hs Cons.prems(2), of st] show ?thesis by simp
    next
      case (Some d)
      with kEndOfRedpath f
        Cons.IH [OF hs Cons.prems(2),
          of "st\<lparr>result := add_data_set (subquery_id (GetSubquery h')) d (result st)\<rparr>"]
      show ?thesis by simp
    qed
  next
    case kContinue
    from r Cons.prems(2) have "\<forall>h \<in> set (acc @ [h']). cursor_in_range h" by simp
    from Cons.IH [OF hs this, of st] kContinue f show ?thesis by simp
  qed
qed

lemma run_in_range:
  fixes ops :: "'v RedfishVariant_ops" and nz :: "'v \<Rightarrow> Subquery \<Rightarrow> 'r option"
    and st :: "('v, 'r, 't) execution"
  shows "\<forall>h \<in> set hs. cursor_in_range h \<Longrightarrow> \<exists>st'. RunRecursive ops nz v hs st = Inr st'"
    and "\<forall>h \<in> group_handles gs. cursor_in_range h \<Longrightarrow> \<exists>st'. Dispatch ops nz v gs st = Inr st'"
    and "\<forall>h \<in> set hs. cursor_in_range h \<Longrightarrow> \<exists>st'. Dispatch_members ops nz ms hs st = Inr st'"
    and "\<forall>h \<in> set hs. cursor_in_range h \<Longrightarrow> \<exists>st'. QualifyEachSubquery ops nz v hs st = Inr st'"
proof (induction ops nz v hs st and ops nz v gs st and ops nz ms hs st and ops nz v hs st
       rule: RunRecursive_Dispatch_Dispatch_members_QualifyEachSubquery.induct)
  case (1 ops normalizer variant handles st)
  from DeduplicateExpression_loop_in_range [OF 1(2), of "[]"] obtain gs where
    gs: "DeduplicateExpression handles = Inr gs"
    by (auto simp: DeduplicateExpression_def)
  show ?case
  proof (cases "gs = []")
    case True
    with gs show ?thesis by (simp add: RunRecursive.simps)
  next
    case False
    from DeduplicateExpression_handles [OF gs] 1(2)
    have "\<forall>h \<in> group_handles gs. cursor_in_range h" by blast
    from 1(1) [OF gs False this] gs False show ?thesis by (simp add: RunRecursive.simps)
  qed
next
  case (2 ops normalizer var st)
  show ?case by simp
next
  case (3 ops normalizer var resource_name handles rest st)
  let ?x = "Get ops var resource_name"
  let ?xa = "st\<lparr>fetched := fetched st @ [(var, resource_name)]\<rparr>"
  from 3(6) have hs: "\<forall>h \<in> set handles. cursor_in_range h"
    and rest: "\<forall>h \<in> group_handles rest. cursor_in_range h" by simp_all
  show ?case
  proof (cases "AsObject ops ?x")
    case False
    from 3(1) [OF refl refl False rest] False show ?thesis by (simp add: Let_def)
  next
    case True
    then have nn: "\<not> \<not> AsObject ops ?x" by simp
    show ?thesis
    proof (cases "AsIterable ops ?x")
      case None
      from 3(2) [OF refl refl nn None hs] obtain b where
        b: "QualifyEachSubquery ops normalizer ?x handles ?xa = Inr b" ..
      from 3(3) [OF refl refl nn None b rest] b True None show ?thesis
        by (simp add: Let_def)
    next
      case (Some ms)
      from 3(4) [OF refl refl nn Some hs] obtain b where
        b: "Dispatch_members ops normalizer ms handles ?xa = Inr b" ..
      from 3(5) [OF refl refl nn Some b rest] b True Some show ?thesis
        by (simp add: Let_def)
    qed
  qed
next
  case (4 ops normalizer handles st)
  show ?case by simp
next
  case (5 ops normalizer member rest handles st)
  from 5(1) [OF 5(3)] obtain b where
    b: "QualifyEachSubquery ops normalizer member handles st = Inr b" ..
  from 5(2) [OF b 5(3)] b show ?case by simp
next
  case (6 ops normalizer var handles st)
  from QualifyEachSubquery_loop_in_range [OF 6(2), of "[]" normalizer var st] obtain q s where
    loop: "QualifyEachSubquery_loop normalizer var handles [] st = Inr (q, s)"
    and q: "\<forall>h \<in> set q. cursor_in_range h"
    by auto
  show ?case
  proof (cases "q = []")
    case True
    with loop show ?thesis by (simp add: QualifyEachSubquery.simps)
  next
    case False
    from 6(1) [OF loop refl False q] loop False show ?thesis
      by (simp add: QualifyEachSubquery.simps)
  qed
qed


lemma SubqueryHandle_in_range:
  "is_redpath_valid (SubqueryHandle sq :: 'v SubqueryHandle) \<Longrightarrow>
   steps_in_redpath (SubqueryHandle sq :: 'v SubqueryHandle) \<noteq> [] \<Longrightarrow>
   cursor_in_range (SubqueryHandle sq :: 'v SubqueryHandle)"
  by (auto simp: SubqueryHandle_def cursor_in_range_def split: prod.splits)

lemma NextNodeInRedpath_Some:
  "NextNodeInRedpath h = Inr (Some n) \<Longrightarrow> is_redpath_valid h \<and> cursor_in_range h"
  by (auto simp: NextNodeInRedpath_def cursor_in_range_def split: if_splits sum.splits
           dest!: deref_Inr)

lemma collect_handles_in_range:
  "collect_handles sqs acc = Inr hs \<Longrightarrow>
   \<forall>h \<in> set acc. is_redpath_valid h \<and> cursor_in_range h \<Longrightarrow>
   \<forall>h \<in> set hs. is_redpath_valid h \<and> cursor_in_range h"
proof (induction sqs arbitrary: acc)
  case Nil
  then show ?case by simp
next
  case (Cons sq sqs)
  show ?case
  proof (cases "NextNodeInRedpath (SubqueryHandle sq :: 'a SubqueryHandle)")
    case (Inl e)
    with Cons.prems show ?thesis by (simp add: Let_def)
  next
    case (Inr r)
    show ?thesis
    proof (cases r)
      case None
      with Inr Cons.prems have "collect_handles sqs acc = Inr hs" by (simp add: Let_def)
      from Cons.IH [OF this Cons.prems(2)] show ?thesis .
    next
      case (Some n)
      with Inr Cons.prems
      have run: "collect_handles sqs (acc @ [SubqueryHandle sq]) = Inr hs"
        by (simp add: Let_def)
      from Inr Some NextNodeInRedpath_Some [of "SubqueryHandle sq :: 'a SubqueryHandle" n]
        Cons.prems(2)
      have "\<forall>h \<in> set (acc @ [SubqueryHandle sq]). is_redpath_valid h \<and> cursor_in_range h"
        by simp
      from Cons.IH [OF run this] show ?thesis .
    qed
  qed
qed

lemma QueryPlanner_in_range:
  "QueryPlanner q = Inr p \<Longrightarrow>
   \<forall>h \<in> set (subquery_handles p). is_redpath_valid h \<and> cursor_in_range h"
  using collect_handles_in_range [of "subquery q" "[]" "subquery_handles p"]
  by (auto simp: QueryPlanner_def split: sum.splits)

lemma Run_returns:
  "\<forall>h \<in> set (subquery_handles p). cursor_in_range h \<Longrightarrow>
   \<exists>st'. Run ops nz p v clock st = Inr st'"
proof -
  assume r: "\<forall>h \<in> set (subquery_handles p). cursor_in_range h"
  let ?s1 = "case clock 0 of
                   Some timestamp \<Rightarrow>
                     st\<lparr>result := (result st)\<lparr>start_timestamp := Some timestamp\<rparr>\<rparr>
                 | None \<Rightarrow> st"
  let ?s2 = "?s1\<lparr>result := (result ?s1)\<lparr>query_ids := query_ids (result ?s1) @ [plan_id p]\<rparr>\<rparr>"
  from run_in_range(1) [OF r, of ops nz v ?s2] obtain st' where
    "RunRecursive ops nz v (subquery_handles p) ?s2 = Inr st'" ..
  then show ?thesis by (simp add: Run_def Let_def)
qed

text \<open>
  Claim C6. Reading the current step through a cursor outside the step list is a
  fault of the model, and a fault ends the run. The constructor leaves the cursor of
  a valid handle with at least one step in range; \<^verbatim>\<open>FilterNodeSet\<close>, the only
  operation that moves a cursor, returns on a cursor in range and leaves it in range,
  moving it by one step exactly when it continues; hence a recursion that starts on
  handles in range returns without a fault, and so does every run of a planner that
  its constructor returned.
\<close>

theorem C6_cursor_within_steps:
  fixes ops :: "'v RedfishVariant_ops" and nz :: "'v \<Rightarrow> Subquery \<Rightarrow> 'r option"
    and st :: "('v, 'r, 't) execution"
  shows
  "(is_redpath_valid (SubqueryHandle sq :: 'v SubqueryHandle) \<and>
      steps_in_redpath (SubqueryHandle sq :: 'v SubqueryHandle) \<noteq> []
      \<longrightarrow> cursor_in_range (SubqueryHandle sq :: 'v SubqueryHandle)) \<and>
   (cursor_in_range h \<longrightarrow>
      (\<exists>s h'. FilterNodeSet h var = Inr (s, h') \<and> cursor_in_range h' \<and>
         (s = kContinue \<longrightarrow> iter h' = map_option Suc (iter h)) \<and>
         (s \<noteq> kContinue \<longrightarrow> h' = h))) \<and>
   ((\<forall>h \<in> set hs. cursor_in_range h) \<longrightarrow>
      (\<exists>st'. RunRecursive ops nz v hs st = Inr st')) \<and>
   (QueryPlanner q = Inr p \<longrightarrow>
      (\<forall>h \<in> set (subquery_handles p). is_redpath_valid h \<and> cursor_in_range h) \<and>
      (\<exists>st'. Run ops nz p v clock st = Inr st'))"
proof (intro conjI impI)
  show "cursor_in_range (SubqueryHandle sq :: 'v SubqueryHandle)"
    if "is_redpath_valid (SubqueryHandle sq :: 'v SubqueryHandle) \<and>
        steps_in_redpath (SubqueryHandle sq :: 'v SubqueryHandle) \<noteq> []"
    using that by (simp add: SubqueryHandle_in_range)
  show "\<exists>s h'. FilterNodeSet h var = Inr (s, h') \<and> cursor_in_range h' \<and>
         (s = kContinue \<longrightarrow> iter h' = map_option Suc (iter h)) \<and>
         (s \<noteq> kContinue \<longrightarrow> h' = h)"
    if "cursor_in_range h"
    using that by (rule FilterNodeSet_in_range)
  show "\<exists>st'. RunRecursive ops nz v hs st = Inr st'" if "\<forall>h \<in> set hs. cursor_in_range h"
    using that by (rule run_in_range(1))
  show "\<forall>h \<in> set (subquery_handles p). is_redpath_valid h \<and> cursor_in_range h"
    if "QueryPlanner q = Inr p"
    using that by (rule QueryPlanner_in_range)
  show "\<exists>st'. Run ops nz p v clock st = Inr st'" if "QueryPlanner q = Inr p"
    using QueryPlanner_in_range [OF that] by (intro Run_returns) blast
qed

theorem C6_cursor_within_steps_witness:
  "cursor_in_range (SubqueryHandle sq_status :: resource SubqueryHandle) \<and>
   (\<exists>h'. FilterNodeSet (SubqueryHandle sq_status) chassis1 = Inr (kContinue, h') \<and>
      cursor_in_range h' \<and> iter h' = Some 1) \<and>
   (\<exists>st'. RunRecursive resource_ops normalize_view service_root
      [SubqueryHandle sq_status] (start :: (resource, resource, nat) execution) = Inr st') \<and>
   (\<exists>st'. Run resource_ops normalize_view
      \<lparr>plan_id = ''Q'', subquery_handles = [SubqueryHandle sq_status, SubqueryHandle sq_chassis]\<rparr>
      service_root (\<lambda>k. None) (start :: (resource, resource, nat) execution) = Inr st')"
proof -
  let ?h = "SubqueryHandle sq_status :: resource SubqueryHandle"
  let ?p = "\<lparr>plan_id = ''Q'',
             subquery_handles = [SubqueryHandle sq_status, SubqueryHandle sq_chassis]\<rparr>
            :: resource QueryPlanner"
  have valid: "is_redpath_valid ?h \<and> steps_in_redpath ?h \<noteq> []"
    by (simp add: compile_simps sq_status_def)
  note c6 = C6_cursor_within_steps
    [where sq = sq_status and h = ?h and var = chassis1 and hs = "[?h]" and ops = resource_ops
       and nz = normalize_view and v = service_root
       and st = "start :: (resource, resource, nat) execution"
       and q = "\<lparr>query_id = ''Q'', subquery = [sq_status] @ [sq_chassis] @ []\<rparr>"
       and p = ?p and clock = "\<lambda>k. None"]
  from c6 valid have r: "cursor_in_range ?h" by blast
  with c6 obtain s h' where
    f: "FilterNodeSet ?h chassis1 = Inr (s, h')" "cursor_in_range h'"
       "s = kContinue \<longrightarrow> iter h' = map_option Suc (iter ?h)"
    by blast
  have "map_sum id fst (FilterNodeSet ?h chassis1) = Inr kContinue"
    by (simp add: compile_simps handle_simps sq_status_def chassis1_def)
  with f have s: "s = kContinue" by simp
  have "iter ?h = Some 0" by (simp add: compile_simps sq_status_def)
  with f s have step: "\<exists>h'. FilterNodeSet ?h chassis1 = Inr (kContinue, h') \<and>
      cursor_in_range h' \<and> iter h' = Some 1"
    by auto
  from c6 r have run: "\<exists>st'. RunRecursive resource_ops normalize_view service_root
      [?h] (start :: (resource, resource, nat) execution) = Inr st'"
    by simp
  from c6 example_plan have "\<exists>st'. Run resource_ops normalize_view ?p
      service_root (\<lambda>k. None) (start :: (resource, resource, nat) execution) = Inr st'"
    by blast
  with r step run show ?thesis by blast
qed

section \<open>Subqueries that fail to compile\<close>

lemma compile_steps_completed:
  "compile_steps segs acc = (steps, completed) \<Longrightarrow> completed = list_all step_compiles segs"
proof (induction segs arbitrary: acc)
  case Nil
  then show ?case by simp
next
  case (Cons s segs)
  show ?case
  proof (cases "GetNodeAndPredicate s")
    case (Inl e)
    with Cons.prems show ?thesis by (auto simp: step_compiles_def)
  next
    case (Inr r)
    obtain n pr where r: "r = (n, pr)" by (cases r)
    show ?thesis
    proof (cases "pr = kPredicateSelectAll")
      case True
      with Inr r Cons.prems
      have "compile_steps segs (acc @ [(n, ApplySelectAllFilter)]) = (steps, completed)"
        by simp
      from Cons.IH [OF this] Inr r True show ?thesis by (simp add: step_compiles_def)
    next
      case False
      with Inr r Cons.prems show ?thesis by (auto simp: step_compiles_def)
    qed
  qed
qed

lemma is_redpath_valid_SubqueryHandle:
  "is_redpath_valid (SubqueryHandle sq :: 'v SubqueryHandle)
     \<longleftrightarrow> list_all step_compiles (SkipEmpty (StrSplit (redpath sq) CHR ''/''))"
proof -
  obtain steps completed where
    c: "compile_steps (SkipEmpty (StrSplit (redpath sq) CHR ''/'')) []
          = (steps :: (string \<times> ('v \<Rightarrow> bool)) list, completed)"
    by (cases "compile_steps (SkipEmpty (StrSplit (redpath sq) CHR ''/'')) []
                 :: (string \<times> ('v \<Rightarrow> bool)) list \<times> bool")
  from compile_steps_completed [OF c] c show ?thesis by (simp add: SubqueryHandle_def)
qed

lemma collect_handles_invalid:
  assumes "\<not> is_redpath_valid (SubqueryHandle sq :: 'v SubqueryHandle)"
  shows "collect_handles (before @ sq # after) (acc :: 'v SubqueryHandle list)
           = collect_handles (before @ after) acc"
proof (induction before arbitrary: acc)
  case Nil
  from assms show ?case by (simp add: NextNodeInRedpath_def Let_def)
next
  case (Cons s before)
  show ?case
    by (cases "NextNodeInRedpath (SubqueryHandle s :: 'v SubqueryHandle)")
       (auto simp: Let_def Cons.IH split: option.splits)
qed

text \<open>
  Claim C7. The handle of a subquery is valid exactly when every step expression of
  its path compiles, so compilation fails on a step without both brackets and on
  any predicate other than \<^verbatim>\<open>*\<close>. A subquery whose handle is not valid is skipped by the
  constructor of the planner: the planner is the one of the query without that
  subquery, its handle is not among the active handles, and planning and running
  the query gives what planning and running the query without it gives.
\<close>

theorem C7_failed_subquery_is_left_out:
  fixes ops :: "'v RedfishVariant_ops" and nz :: "'v \<Rightarrow> Subquery \<Rightarrow> 'r option"
    and st :: "('v, 'r, 't) execution"
  shows
  "(is_redpath_valid (SubqueryHandle sq :: 'v SubqueryHandle)
      \<longleftrightarrow> list_all step_compiles (SkipEmpty (StrSplit (redpath sq) CHR ''/''))) \<and>
   (\<not> is_redpath_valid (SubqueryHandle sq :: 'v SubqueryHandle) \<longrightarrow>
      (QueryPlanner \<lparr>query_id = qid, subquery = before @ [sq] @ after\<rparr>
         :: fault + 'v QueryPlanner)
        = QueryPlanner \<lparr>query_id = qid, subquery = before @ after\<rparr> \<and>
      (\<forall>p. (QueryPlanner \<lparr>query_id = qid, subquery = before @ [sq] @ after\<rparr>
               :: fault + 'v QueryPlanner) = Inr p
           \<longrightarrow> SubqueryHandle sq \<notin> set (subquery_handles p)) \<and>
      plan_and_run ops nz \<lparr>query_id = qid, subquery = before @ [sq] @ after\<rparr> v clock st
        = plan_and_run ops nz \<lparr>query_id = qid, subquery = before @ after\<rparr> v clock st)"
proof (intro conjI impI allI)
  show "is_redpath_valid (SubqueryHandle sq :: 'v SubqueryHandle)
      \<longleftrightarrow> list_all step_compiles (SkipEmpty (StrSplit (redpath sq) CHR ''/''))"
    by (rule is_redpath_valid_SubqueryHandle)
next
  assume inv: "\<not> is_redpath_valid (SubqueryHandle sq :: 'v SubqueryHandle)"
  show eq: "(QueryPlanner \<lparr>query_id = qid, subquery = before @ [sq] @ after\<rparr>
         :: fault + 'v QueryPlanner)
        = QueryPlanner \<lparr>query_id = qid, subquery = before @ after\<rparr>"
    using collect_handles_invalid [OF inv, of before after "[]"]
    by (simp add: QueryPlanner_def cong: sum.case_cong)
  then show "plan_and_run ops nz \<lparr>query_id = qid, subquery = before @ [sq] @ after\<rparr> v clock st
        = plan_and_run ops nz \<lparr>query_id = qid, subquery = before @ after\<rparr> v clock st"
    by (simp add: plan_and_run_def)
next
  fix p :: "'v QueryPlanner"
  assume inv: "\<not> is_redpath_valid (SubqueryHandle sq :: 'v SubqueryHandle)"
    and "QueryPlanner \<lparr>query_id = qid, subquery = before @ [sq] @ after\<rparr> = Inr p"
  from QueryPlanner_in_range [OF this(2)] inv
  show "SubqueryHandle sq \<notin> set (subquery_handles p)" by blast
qed

theorem C7_failed_subquery_witness:
  "\<not> is_redpath_valid (SubqueryHandle sq_no_brackets :: resource SubqueryHandle) \<and>
   \<not> is_redpath_valid
       (SubqueryHandle \<lparr>subquery_id = ''S8'', redpath = ''/Chassis[Name=foo]'', properties = []\<rparr>
          :: resource SubqueryHandle) \<and>
   (QueryPlanner \<lparr>query_id = ''Q'', subquery = [sq_status] @ [sq_no_brackets] @ [sq_chassis]\<rparr>
      :: fault + resource QueryPlanner)
     = Inr \<lparr>plan_id = ''Q'',
            subquery_handles = [SubqueryHandle sq_status, SubqueryHandle sq_chassis]\<rparr> \<and>
   plan_and_run resource_ops normalize_view
       \<lparr>query_id = ''Q'', subquery = [sq_status] @ [sq_no_brackets] @ [sq_chassis]\<rparr>
       service_root (\<lambda>k. None) (start :: (resource, resource, nat) execution)
     = plan_and_run resource_ops normalize_view
         \<lparr>query_id = ''Q'', subquery = [sq_status] @ [sq_chassis]\<rparr>
         service_root (\<lambda>k. None) start"
proof -
  have inv: "\<not> is_redpath_valid (SubqueryHandle sq_no_brackets :: resource SubqueryHandle)"
    by (simp add: compile_simps sq_no_brackets_def)
  have inv2: "\<not> is_redpath_valid
       (SubqueryHandle \<lparr>subquery_id = ''S8'', redpath = ''/Chassis[Name=foo]'', properties = []\<rparr>
          :: resource SubqueryHandle)"
    by (simp add: compile_simps)
  note c7 = C7_failed_subquery_is_left_out
    [where sq = sq_no_brackets and qid = "''Q''" and before = "[sq_status]"
       and after = "[sq_chassis]" and ops = resource_ops and nz = normalize_view
       and v = service_root and clock = "\<lambda>k. None"
       and st = "start :: (resource, resource, nat) execution"]
  from c7 inv have
    "(QueryPlanner \<lparr>query_id = ''Q'', subquery = [sq_status] @ [sq_no_brackets] @ [sq_chassis]\<rparr>
      :: fault + resource QueryPlanner)
     = QueryPlanner \<lparr>query_id = ''Q'', subquery = [sq_status] @ [sq_chassis]\<rparr>"
    and run: "plan_and_run resource_ops normalize_view
       \<lparr>query_id = ''Q'', subquery = [sq_status] @ [sq_no_brackets] @ [sq_chassis]\<rparr>
       service_root (\<lambda>k. None) (start :: (resource, resource, nat) execution)
     = plan_and_run resource_ops normalize_view
         \<lparr>query_id = ''Q'', subquery = [sq_status] @ [sq_chassis]\<rparr>
         service_root (\<lambda>k. None) start"
    by blast+
  with example_plan have "(QueryPlanner
       \<lparr>query_id = ''Q'', subquery = [sq_status] @ [sq_no_brackets] @ [sq_chassis]\<rparr>
      :: fault + resource QueryPlanner)
     = Inr \<lparr>plan_id = ''Q'',
            subquery_handles = [SubqueryHandle sq_status, SubqueryHandle sq_chassis]\<rparr>"
    by simp
  with inv inv2 run show ?thesis by blast
qed

section \<open>Dispatch\<close>

lemma foldl_fault:
  "foldl (\<lambda>outcome member. case outcome of Inl e \<Rightarrow> Inl e | Inr s \<Rightarrow> f member s) (Inl e) ms
     = Inl e"
  by (induction ms) simp_all

lemma Dispatch_members_foldl:
  "Dispatch_members ops nz ms hs st = qualify_each_member ops nz ms hs st"
proof (induction ms arbitrary: st)
  case Nil
  show ?case by (simp add: qualify_each_member_def)
next
  case (Cons m ms)
  show ?case
  proof (cases "QualifyEachSubquery ops nz m hs st")
    case (Inl e)
    then show ?thesis by (simp add: qualify_each_member_def foldl_fault)
  next
    case (Inr s)
    with Cons.IH [of s] show ?thesis by (simp add: qualify_each_member_def)
  qed
qed

lemma Dispatch_append:
  "Dispatch ops nz var (gs @ gs') st
     = (case Dispatch ops nz var gs st of Inl e \<Rightarrow> Inl e | Inr s \<Rightarrow> Dispatch ops nz var gs' s)"
proof (induction gs arbitrary: st)
  case Nil
  show ?case by simp
next
  case (Cons g gs)
  obtain n hs where g: "g = (n, hs)" by (cases g)
  let ?x = "Get ops var n"
  let ?st1 = "st\<lparr>fetched := fetched st @ [(var, n)]\<rparr>"
  show ?case
  proof (cases "AsObject ops ?x")
    case False
    with g Cons.IH [of ?st1] show ?thesis by (simp add: Let_def)
  next
    case True
    show ?thesis
    proof (cases "AsIterable ops ?x")
      case None
      with True g Cons.IH show ?thesis
        by (cases "QualifyEachSubquery ops nz ?x hs ?st1") (simp_all add: Let_def)
    next
      case (Some ms)
      with True g Cons.IH show ?thesis
        by (cases "Dispatch_members ops nz ms hs ?st1") (simp_all add: Let_def)
    qed
  qed
qed

text \<open>
  Claim C4, as amended. For a group of handles that demand the node \<open>name\<close>,
  \<^verbatim>\<open>Dispatch\<close> looks the child up once. The group is skipped (nothing but the
  lookup happens) exactly when the child is not an object, whether or not it is
  iterable. When the child is an object and iterable, every member of the
  collection is qualified, in order, against the handles of the group; when it is
  an object and not iterable, the child itself is qualified. The groups are
  processed one after the other.
\<close>

theorem C4_dispatch_skips_what_is_not_an_object:
  fixes ops :: "'v RedfishVariant_ops" and nz :: "'v \<Rightarrow> Subquery \<Rightarrow> 'r option"
    and st :: "('v, 'r, 't) execution"
  shows
  "(\<not> AsObject ops (Get ops var name) \<longrightarrow>
      Dispatch ops nz var [(name, handles)] st
        = Inr (st\<lparr>fetched := fetched st @ [(var, name)]\<rparr>)) \<and>
   (AsObject ops (Get ops var name) \<and> AsIterable ops (Get ops var name) = Some collection \<longrightarrow>
      Dispatch ops nz var [(name, handles)] st
        = qualify_each_member ops nz collection handles
            (st\<lparr>fetched := fetched st @ [(var, name)]\<rparr>)) \<and>
   (AsObject ops (Get ops var name) \<and> AsIterable ops (Get ops var name) = None \<longrightarrow>
      Dispatch ops nz var [(name, handles)] st
        = QualifyEachSubquery ops nz (Get ops var name) handles
            (st\<lparr>fetched := fetched st @ [(var, name)]\<rparr>)) \<and>
   Dispatch ops nz var ((name, handles) # rest) st
     = (case Dispatch ops nz var [(name, handles)] st of
          Inl e \<Rightarrow> Inl e
        | Inr s \<Rightarrow> Dispatch ops nz var rest s)"
proof (intro conjI impI)
  let ?st1 = "st\<lparr>fetched := fetched st @ [(var, name)]\<rparr>"
  show "Dispatch ops nz var [(name, handles)] st = Inr ?st1"
    if "\<not> AsObject ops (Get ops var name)"
    using that by (simp add: Let_def)
  show "Dispatch ops nz var [(name, handles)] st
        = qualify_each_member ops nz collection handles ?st1"
    if "AsObject ops (Get ops var name) \<and> AsIterable ops (Get ops var name) = Some collection"
    using that
    by (cases "qualify_each_member ops nz collection handles ?st1")
       (simp_all add: Let_def Dispatch_members_foldl)
  show "Dispatch ops nz var [(name, handles)] st
        = QualifyEachSubquery ops nz (Get ops var name) handles ?st1"
    if "AsObject ops (Get ops var name) \<and> AsIterable ops (Get ops var name) = None"
    using that
    by (cases "QualifyEachSubquery ops nz (Get ops var name) handles ?st1")
       (simp_all add: Let_def)
  show "Dispatch ops nz var ((name, handles) # rest) st
     = (case Dispatch ops nz var [(name, handles)] st of
          Inl e \<Rightarrow> Inl e
        | Inr s \<Rightarrow> Dispatch ops nz var rest s)"
    using Dispatch_append [of ops nz var "[(name, handles)]" rest st] by simp
qed

text \<open>
  Claim C4 as stated fails: it skips a child only when the child is neither an
  object nor iterable, and qualifies every member of an iterable child. The child
  \<open>Tags\<close> of the service root is a JSON array: iterable, with one member, and not an
  object. \<^verbatim>\<open>Dispatch\<close> tests \<^verbatim>\<open>AsObject()\<close> first and skips it, so the subquery gets no
  record, whereas qualifying the member would have recorded it.
\<close>

theorem C4_iterable_that_is_no_object_is_skipped:
  "AsIterable resource_ops (Get resource_ops service_root ''Tags'') = Some [status_leaf] \<and>
   \<not> AsObject resource_ops (Get resource_ops service_root ''Tags'') \<and>
   Dispatch resource_ops normalize_view service_root
       [(''Tags'', [SubqueryHandle sq_tags])] (start :: (resource, resource, nat) execution)
     = Inr (start\<lparr>fetched := [(service_root, ''Tags'')]\<rparr>) \<and>
   map_sum id (\<lambda>st. subquery_output_by_id (result st) ''S3'')
     (qualify_each_member resource_ops normalize_view [status_leaf] [SubqueryHandle sq_tags]
        (start\<lparr>fetched := [(service_root, ''Tags'')]\<rparr> :: (resource, resource, nat) execution))
     = Inr (Some [status_leaf]) \<and>
   map_sum id (\<lambda>st. subquery_output_by_id (result st) ''S3'')
     (plan_and_run resource_ops normalize_view \<lparr>query_id = ''Q'', subquery = [sq_tags]\<rparr>
        service_root (\<lambda>k. None) (start :: (resource, resource, nat) execution))
     = Inr None"
proof (intro conjI)
  show "AsIterable resource_ops (Get resource_ops service_root ''Tags'') = Some [status_leaf]"
    by (simp add: resource_ops_def child_def example_simps)
  show "\<not> AsObject resource_ops (Get resource_ops service_root ''Tags'')"
    by (simp add: resource_ops_def child_def example_simps)
  show "Dispatch resource_ops normalize_view service_root
       [(''Tags'', [SubqueryHandle sq_tags])] (start :: (resource, resource, nat) execution)
     = Inr (start\<lparr>fetched := [(service_root, ''Tags'')]\<rparr>)"
    by (simp add: resource_ops_def child_def example_simps start_def Let_def)
  show "map_sum id (\<lambda>st. subquery_output_by_id (result st) ''S3'')
     (qualify_each_member resource_ops normalize_view [status_leaf] [SubqueryHandle sq_tags]
        (start\<lparr>fetched := [(service_root, ''Tags'')]\<rparr> :: (resource, resource, nat) execution))
     = Inr (Some [status_leaf])"
    by (simp add: compile_simps handle_simps run_simps example_simps qualify_each_member_def)
  show "map_sum id (\<lambda>st. subquery_output_by_id (result st) ''S3'')
     (plan_and_run resource_ops normalize_view \<lparr>query_id = ''Q'', subquery = [sq_tags]\<rparr>
        service_root (\<lambda>k. None) (start :: (resource, resource, nat) execution))
     = Inr None"
    by (simp add: compile_simps handle_simps run_simps example_simps plan_and_run_def)
qed

theorem C4_dispatch_witness:
  "\<not> AsObject resource_ops (Get resource_ops service_root ''Tags'') \<and>
   Dispatch resource_ops normalize_view service_root
       [(''Tags'', [SubqueryHandle sq_tags])] (start :: (resource, resource, nat) execution)
     = Inr (start\<lparr>fetched := fetched (start :: (resource, resource, nat) execution) @ [(service_root, ''Tags'')]\<rparr>) \<and>
   AsObject resource_ops (Get resource_ops service_root ''Chassis'') \<and>
   AsIterable resource_ops (Get resource_ops service_root ''Chassis'') = Some [chassis1, chassis2] \<and>
   Dispatch resource_ops normalize_view service_root
       [(''Chassis'', [SubqueryHandle sq_chassis])] (start :: (resource, resource, nat) execution)
     = qualify_each_member resource_ops normalize_view [chassis1, chassis2]
         [SubqueryHandle sq_chassis]
         (start\<lparr>fetched := fetched (start :: (resource, resource, nat) execution) @ [(service_root, ''Chassis'')]\<rparr>) \<and>
   AsObject resource_ops (Get resource_ops chassis1 ''Status'') \<and>
   AsIterable resource_ops (Get resource_ops chassis1 ''Status'') = None \<and>
   Dispatch resource_ops normalize_view chassis1
       [(''Status'', [SubqueryHandle sq_chassis])] (start :: (resource, resource, nat) execution)
     = QualifyEachSubquery resource_ops normalize_view (Get resource_ops chassis1 ''Status'')
         [SubqueryHandle sq_chassis] (start\<lparr>fetched := fetched (start :: (resource, resource, nat) execution) @ [(chassis1, ''Status'')]\<rparr>)"
proof -
  have tags: "\<not> AsObject resource_ops (Get resource_ops service_root ''Tags'')"
    by (simp add: resource_ops_def child_def example_simps)
  have chassis: "AsObject resource_ops (Get resource_ops service_root ''Chassis'') \<and>
      AsIterable resource_ops (Get resource_ops service_root ''Chassis'') = Some [chassis1, chassis2]"
    by (simp add: resource_ops_def child_def example_simps)
  have status: "AsObject resource_ops (Get resource_ops chassis1 ''Status'') \<and>
      AsIterable resource_ops (Get resource_ops chassis1 ''Status'') = None"
    by (simp add: resource_ops_def child_def example_simps)
  note a = C4_dispatch_skips_what_is_not_an_object
            [where ops = resource_ops and nz = normalize_view and var = service_root
               and name = "''Tags''" and handles = "[SubqueryHandle sq_tags]"
               and st = "start :: (resource, resource, nat) execution", THEN conjunct1, rule_format, OF tags]
  note b = C4_dispatch_skips_what_is_not_an_object
            [where ops = resource_ops and nz = normalize_view and var = service_root
               and name = "''Chassis''" and handles = "[SubqueryHandle sq_chassis]"
               and collection = "[chassis1, chassis2]"
               and st = "start :: (resource, resource, nat) execution",
             THEN conjunct2, THEN conjunct1, rule_format, OF chassis]
  note c = C4_dispatch_skips_what_is_not_an_object
            [where ops = resource_ops and nz = normalize_view and var = chassis1
               and name = "''Status''" and handles = "[SubqueryHandle sq_chassis]"
               and st = "start :: (resource, resource, nat) execution",
             THEN conjunct2, THEN conjunct2, THEN conjunct1, rule_format, OF status]
  show ?thesis
    apply (intro conjI)
           apply (rule tags)
          apply (rule a)
         apply (rule chassis [THEN conjunct1])
        apply (rule chassis [THEN conjunct2])
       apply (rule b)
      apply (rule status [THEN conjunct1])
     apply (rule status [THEN conjunct2])
    apply (rule c)
    done
qed

section \<open>Sibling members of a collection\<close>

lemma Dispatch_members_append:
  "Dispatch_members ops nz (ms @ ms') hs st
     = (case Dispatch_members ops nz ms hs st of
          Inl e \<Rightarrow> Inl e
        | Inr s \<Rightarrow> Dispatch_members ops nz ms' hs s)"
proof (induction ms arbitrary: st)
  case Nil
  show ?case by simp
next
  case (Cons m ms)
  then show ?case by (cases "QualifyEachSubquery ops nz m hs st") simp_all
qed

lemma QualifyEachSubquery_loop_advanced:
  "QualifyEachSubquery_loop nz var hs acc st = Inr (q, st') \<Longrightarrow>
   \<forall>h' \<in> set q. h' \<in> set acc \<or>
      (\<exists>h \<in> set hs. FilterNodeSet h var = Inr (kContinue, h') \<and>
         GetSubquery h' = GetSubquery h \<and> iter h' = map_option Suc (iter h) \<and>
         iter h' \<noteq> iter h)"
proof (induction hs arbitrary: acc st)
  case Nil
  then show ?case by simp
next
  case (Cons h hs)
  show ?case
  proof (cases "FilterNodeSet h var")
    case (Inl e)
    with Cons.prems show ?thesis by simp
  next
    case (Inr r)
    obtain s h1 where r: "r = (s, h1)" by (cases r)
    show ?thesis
    proof (cases s)
      case kEndByPredicate
      with Inr r Cons.prems have "QualifyEachSubquery_loop nz var hs acc st = Inr (q, st')"
        by simp
      from Cons.IH [OF this] show ?thesis by auto
    next
      case kEndOfRedpath
      with Inr r Cons.prems
      have "\<exists>st1. QualifyEachSubquery_loop nz var hs acc st1 = Inr (q, st')"
        by (auto simp: Let_def split: option.splits)
      then obtain st1 where "QualifyEachSubquery_loop nz var hs acc st1 = Inr (q, st')" ..
      from Cons.IH [OF this] show ?thesis by auto
    next
      case kContinue
      with Inr r Cons.prems
      have run: "QualifyEachSubquery_loop nz var hs (acc @ [h1]) st = Inr (q, st')"
        by simp
      from Inr r kContinue have f: "FilterNodeSet h var = Inr (kContinue, h1)" by simp
      then have adv: "GetSubquery h1 = GetSubquery h \<and> iter h1 = map_option Suc (iter h) \<and>
          iter h1 \<noteq> iter h"
        by (auto simp: FilterNodeSet_def Let_def split: sum.splits if_splits dest!: deref_Inr)
      from Cons.IH [OF run] f adv show ?thesis by auto
    qed
  qed
qed

text \<open>
  Claim C5. \<^verbatim>\<open>QualifyEachSubquery\<close> takes the handles by value. Qualifying a member
  advances cursors only in the handles it passes on to its own recursion: each of
  them is the advanced copy of one of the handles it was given. The member at
  position \<open>k\<close> of a collection is qualified against the handles as they were when
  the collection was entered, whatever the members before it did to their copies.
\<close>

theorem C5_siblings_qualify_from_the_same_cursor:
  fixes ops :: "'v RedfishVariant_ops" and nz :: "'v \<Rightarrow> Subquery \<Rightarrow> 'r option"
    and st :: "('v, 'r, 't) execution"
  shows
  "(k < length collection \<longrightarrow>
      Dispatch_members ops nz (take (Suc k) collection) handles st
        = (case Dispatch_members ops nz (take k collection) handles st of
             Inl e \<Rightarrow> Inl e
           | Inr s \<Rightarrow> QualifyEachSubquery ops nz (collection ! k) handles s)) \<and>
   (QualifyEachSubquery_loop nz var handles [] st = Inr (advanced, st') \<longrightarrow>
      (\<forall>h' \<in> set advanced. \<exists>h \<in> set handles.
          FilterNodeSet h var = Inr (kContinue, h') \<and> GetSubquery h' = GetSubquery h \<and>
          iter h' = map_option Suc (iter h) \<and> iter h' \<noteq> iter h))"
proof (intro conjI impI)
  assume k: "k < length collection"
  have "Dispatch_members ops nz (take k collection @ [collection ! k]) handles st
        = (case Dispatch_members ops nz (take k collection) handles st of
             Inl e \<Rightarrow> Inl e
           | Inr s \<Rightarrow> QualifyEachSubquery ops nz (collection ! k) handles s)"
    unfolding Dispatch_members_append
    by (cases "Dispatch_members ops nz (take k collection) handles st";
        simp split: sum.splits)
  with k show "Dispatch_members ops nz (take (Suc k) collection) handles st
        = (case Dispatch_members ops nz (take k collection) handles st of
             Inl e \<Rightarrow> Inl e
           | Inr s \<Rightarrow> QualifyEachSubquery ops nz (collection ! k) handles s)"
    by (simp add: take_Suc_conv_app_nth)
next
  assume "QualifyEachSubquery_loop nz var handles [] st = Inr (advanced, st')"
  from QualifyEachSubquery_loop_advanced [OF this]
  show "\<forall>h' \<in> set advanced. \<exists>h \<in> set handles.
          FilterNodeSet h var = Inr (kContinue, h') \<and> GetSubquery h' = GetSubquery h \<and>
          iter h' = map_option Suc (iter h) \<and> iter h' \<noteq> iter h"
    by simp
qed

theorem C5_siblings_witness:
  "(1::nat) < length [chassis1, chassis2] \<and>
   iter (SubqueryHandle sq_status :: resource SubqueryHandle) = Some 0 \<and>
   QualifyEachSubquery_loop normalize_view chassis1 [SubqueryHandle sq_status] []
       (start :: (resource, resource, nat) execution)
     = Inr ([(SubqueryHandle sq_status)\<lparr>iter := Some 1\<rparr>], start) \<and>
   Dispatch_members resource_ops normalize_view [chassis1, chassis2]
       [SubqueryHandle sq_status] (start :: (resource, resource, nat) execution)
     = (case Dispatch_members resource_ops normalize_view [chassis1]
               [SubqueryHandle sq_status] start of
          Inl e \<Rightarrow> Inl e
        | Inr s \<Rightarrow> QualifyEachSubquery resource_ops normalize_view chassis2
                   [SubqueryHandle sq_status] s) \<and>
   FilterNodeSet (SubqueryHandle sq_status) chassis1
     = Inr (kContinue, (SubqueryHandle sq_status :: resource SubqueryHandle)\<lparr>iter := Some 1\<rparr>) \<and>
   iter ((SubqueryHandle sq_status :: resource SubqueryHandle)\<lparr>iter := Some 1\<rparr>)
     \<noteq> iter (SubqueryHandle sq_status :: resource SubqueryHandle)"
proof -
  let ?h = "SubqueryHandle sq_status :: resource SubqueryHandle"
  let ?start = "start :: (resource, resource, nat) execution"
  have k: "(1::nat) < length [chassis1, chassis2]" by simp
  have i: "iter ?h = Some 0" by (simp add: compile_simps sq_status_def)
  have loop: "QualifyEachSubquery_loop normalize_view chassis1 [?h] [] ?start
     = Inr ([?h\<lparr>iter := Some 1\<rparr>], ?start)"
    by (simp add: compile_simps handle_simps sq_status_def chassis1_def)
  note c5 = C5_siblings_qualify_from_the_same_cursor
    [where k = "1" and collection = "[chassis1, chassis2]" and handles = "[?h]"
       and ops = resource_ops and nz = normalize_view and st = ?start and var = chassis1
       and advanced = "[?h\<lparr>iter := Some 1\<rparr>]" and st' = ?start]
  from c5 [THEN conjunct1, rule_format, OF k]
  have sib: "Dispatch_members resource_ops normalize_view [chassis1, chassis2] [?h] ?start
     = (case Dispatch_members resource_ops normalize_view [chassis1] [?h] ?start of
          Inl e \<Rightarrow> Inl e
        | Inr s \<Rightarrow> QualifyEachSubquery resource_ops normalize_view chassis2 [?h] s)"
    by (simp del: Dispatch_members.simps cong: sum.case_cong)
  from c5 [THEN conjunct2, rule_format, OF loop]
  have adv: "FilterNodeSet ?h chassis1 = Inr (kContinue, ?h\<lparr>iter := Some 1\<rparr>) \<and>
      iter (?h\<lparr>iter := Some 1\<rparr>) \<noteq> iter ?h"
    by (auto simp: i)
  from k i loop sib adv show ?thesis by (intro conjI) simp_all
qed

section \<open>One lookup for each node name\<close>

lemma requests_since_append:
  "fetched st' = fetched st @ new \<Longrightarrow> requests_since st st' = new"
  by (simp add: requests_since_def)

lemma push_back_keys:
  "set (map fst (push_back k h m)) = insert k (set (map fst m))"
  by (induction k h m rule: push_back.induct) auto

lemma push_back_sorted:
  "sorted_wrt (<) (map fst m) \<Longrightarrow> sorted_wrt (<) (map fst (push_back k h m))"
proof (induction k h m rule: push_back.induct)
  case (1 k h)
  show ?case by simp
next
  case (2 k h k' hs rest)
  show ?case
  proof (cases "k = k'")
    case True
    with 2(2) show ?thesis by simp
  next
    case ne: False
    show ?thesis
    proof (cases "k < k'")
      case True
      with ne 2(2) show ?thesis by (auto intro: less_trans)
    next
      case False
      with ne have "k' < k" by simp
      moreover from 2(2) have "sorted_wrt (<) (map fst rest)" by simp
      ultimately show ?thesis
        using ne False 2(1) [OF ne False] 2(2)
        by (auto simp: push_back_keys [simplified])
    qed
  qed
qed

lemma next_nodes_iff:
  "n \<in> next_nodes hs \<longleftrightarrow> (\<exists>h \<in> set hs. NextNodeInRedpath h = Inr (Some n))"
  by (induction hs) (auto split: sum.splits option.splits)

lemma DeduplicateExpression_loop_keys:
  "DeduplicateExpression_loop hs m = Inr gs \<Longrightarrow> sorted_wrt (<) (map fst m) \<Longrightarrow>
     sorted_wrt (<) (map fst gs) \<and> set (map fst gs) = set (map fst m) \<union> next_nodes hs"
proof (induction hs arbitrary: m)
  case Nil
  then show ?case by simp
next
  case (Cons h hs)
  show ?case
  proof (cases "NextNodeInRedpath h")
    case (Inl e)
    with Cons.prems show ?thesis by simp
  next
    case (Inr r)
    show ?thesis
    proof (cases r)
      case None
      with Inr Cons.prems have "DeduplicateExpression_loop hs m = Inr gs" by simp
      from Cons.IH [OF this Cons.prems(2)] Inr None show ?thesis
        by simp
    next
      case (Some n)
      with Inr Cons.prems have "DeduplicateExpression_loop hs (push_back n h m) = Inr gs"
        by simp
      from Cons.IH [OF this push_back_sorted [OF Cons.prems(2)]] Inr Some show ?thesis
        by (auto simp: push_back_keys [simplified] simp del: push_back.simps)
    qed
  qed
qed

lemma DeduplicateExpression_keys:
  "DeduplicateExpression hs = Inr gs \<Longrightarrow>
     sorted_wrt (<) (map fst gs) \<and> set (map fst gs) = next_nodes hs"
  using DeduplicateExpression_loop_keys [of hs "[]" gs]
  by (simp add: DeduplicateExpression_def)

lemma next_nodes_card: "card (next_nodes hs) \<le> length hs"
proof (induction hs)
  case Nil
  show ?case by simp
next
  case (Cons h hs)
  have "finite (next_nodes hs)" by (induction hs) (auto split: sum.splits option.splits)
  then have "card (insert n (next_nodes hs)) \<le> Suc (card (next_nodes hs))" for n
    by (simp add: card_insert_if)
  with Cons show ?case
    by (auto split: sum.splits option.splits intro: le_SucI order_trans)
qed

lemma QualifyEachSubquery_loop_fetched:
  "QualifyEachSubquery_loop nz var hs acc st = Inr (q, st') \<Longrightarrow> fetched st' = fetched st"
proof (induction hs arbitrary: acc st)
  case Nil
  then show ?case by simp
next
  case (Cons h hs)
  show ?case
  proof (cases "FilterNodeSet h var")
    case (Inl e)
    with Cons.prems show ?thesis by simp
  next
    case (Inr r)
    obtain s h1 where r: "r = (s, h1)" by (cases r)
    show ?thesis
    proof (cases s)
      case kEndByPredicate
      with Inr r Cons.prems Cons.IH show ?thesis by simp
    next
      case kEndOfRedpath
      show ?thesis
      proof (cases "nz var (GetSubquery h1)")
        case None
        with kEndOfRedpath Inr r Cons.prems Cons.IH show ?thesis by simp
      next
        case (Some d)
        with kEndOfRedpath Inr r Cons.prems
          Cons.IH [of acc "st\<lparr>result := add_data_set (subquery_id (GetSubquery h1)) d (result st)\<rparr>"]
        show ?thesis by simp
      qed
    next
      case kContinue
      with Inr r Cons.prems Cons.IH show ?thesis by simp
    qed
  qed
qed


lemma descends_collection:
  "descends ops rank \<Longrightarrow> AsObject ops (Get ops v name) \<Longrightarrow>
     AsIterable ops (Get ops v name) = Some ms \<Longrightarrow> \<forall>m \<in> set ms. rank m < rank v"
  by (auto simp: descends_def split: option.splits)

lemma descends_singleton:
  "descends ops rank \<Longrightarrow> AsObject ops (Get ops v name) \<Longrightarrow>
     AsIterable ops (Get ops v name) = None \<Longrightarrow> rank (Get ops v name) < rank v"
proof -
  assume d: "descends ops rank" and o: "AsObject ops (Get ops v name)"
    and n: "AsIterable ops (Get ops v name) = None"
  from d have "AsObject ops (Get ops v name) \<longrightarrow>
        (case AsIterable ops (Get ops v name) of
           None \<Rightarrow> rank (Get ops v name) < rank v
         | Some collection \<Rightarrow> \<forall>member \<in> set collection. rank member < rank v)"
    unfolding descends_def by blast
  with o n show ?thesis by simp
qed

lemma run_requests:
  fixes ops :: "'v RedfishVariant_ops" and nz :: "'v \<Rightarrow> Subquery \<Rightarrow> 'r option"
    and st :: "('v, 'r, 't) execution" and rank :: "'v \<Rightarrow> nat"
  shows "RunRecursive ops nz v hs st = Inr st' \<Longrightarrow> descends ops rank \<Longrightarrow>
           \<exists>new. fetched st' = fetched st @ new \<and> (\<forall>e \<in> set new. rank (fst e) \<le> rank v)"
    and "Dispatch ops nz v gs st = Inr st' \<Longrightarrow> descends ops rank \<Longrightarrow>
           \<exists>new. fetched st' = fetched st @ new \<and> (\<forall>e \<in> set new. rank (fst e) \<le> rank v) \<and>
             filter (\<lambda>e. fst e = v) new = map (Pair v) (map fst gs)"
    and "Dispatch_members ops nz ms hs st = Inr st' \<Longrightarrow> descends ops rank \<Longrightarrow>
           \<forall>m \<in> set ms. rank m < b \<Longrightarrow>
           \<exists>new. fetched st' = fetched st @ new \<and> (\<forall>e \<in> set new. rank (fst e) < b)"
    and "QualifyEachSubquery ops nz v hs st = Inr st' \<Longrightarrow> descends ops rank \<Longrightarrow>
           \<exists>new. fetched st' = fetched st @ new \<and> (\<forall>e \<in> set new. rank (fst e) \<le> rank v)"
proof (induction ops nz v hs st and ops nz v gs st and ops nz ms hs st and ops nz v hs st
       arbitrary: st' and st' and st' b and st'
       rule: RunRecursive_Dispatch_Dispatch_members_QualifyEachSubquery.induct)
  case (1 ops normalizer variant handles st)
  show ?case
  proof (cases "DeduplicateExpression handles")
    case (Inl e)
    with 1(2) show ?thesis by (simp add: RunRecursive.simps)
  next
    case (Inr gs)
    show ?thesis
    proof (cases "gs = []")
      case True
      with Inr 1(2) show ?thesis by (simp add: RunRecursive.simps)
    next
      case False
      with Inr 1(2) have "Dispatch ops normalizer variant gs st = Inr st'"
        by (simp add: RunRecursive.simps)
      from 1(1) [OF Inr False this 1(3)] show ?thesis by blast
    qed
  qed
next
  case (2 ops normalizer var st)
  then show ?case by simp
next
  case (3 ops normalizer var resource_name handles rest st)
  let ?x = "Get ops var resource_name"
  let ?xa = "st\<lparr>fetched := fetched st @ [(var, resource_name)]\<rparr>"
  note tree = 3(7)
  show ?case
  proof (cases "AsObject ops ?x")
    case False
    with 3(6) have "Dispatch ops normalizer var rest ?xa = Inr st'" by (simp add: Let_def)
    from 3(1) [OF refl refl False this tree] obtain new where
      new: "fetched st' = fetched ?xa @ new" "\<forall>e \<in> set new. rank (fst e) \<le> rank var"
        "filter (\<lambda>e. fst e = var) new = map (Pair var) (map fst rest)"
      by blast
    then have "fetched st' = fetched st @ ((var, resource_name) # new) \<and>
        (\<forall>e \<in> set ((var, resource_name) # new). rank (fst e) \<le> rank var) \<and>
        filter (\<lambda>e. fst e = var) ((var, resource_name) # new)
          = map (Pair var) (map fst ((resource_name, handles) # rest))"
      by simp
    then show ?thesis by blast
  next
    case True
    then have nn: "\<not> \<not> AsObject ops ?x" by simp
    show ?thesis
    proof (cases "AsIterable ops ?x")
      case None
      from True None 3(6) obtain b where
        b: "QualifyEachSubquery ops normalizer ?x handles ?xa = Inr b"
        and rest: "Dispatch ops normalizer var rest b = Inr st'"
        by (cases "QualifyEachSubquery ops normalizer ?x handles ?xa") (simp_all add: Let_def)
      from 3(2) [OF refl refl nn None b tree] obtain sub where
        sub: "fetched b = fetched ?xa @ sub" "\<forall>e \<in> set sub. rank (fst e) \<le> rank ?x"
        by blast
      from descends_singleton [OF tree True None] have lt: "rank ?x < rank var" .
      with sub(2) have below: "\<forall>e \<in> set sub. rank (fst e) < rank var" by auto
      then have none: "filter (\<lambda>e. fst e = var) sub = []"
        by (auto simp: filter_empty_conv)
      from 3(3) [OF refl refl nn None b rest tree] obtain new where
        new: "fetched st' = fetched b @ new" "\<forall>e \<in> set new. rank (fst e) \<le> rank var"
          "filter (\<lambda>e. fst e = var) new = map (Pair var) (map fst rest)"
        by blast
      from sub(1) new below none
      have "fetched st' = fetched st @ ((var, resource_name) # sub @ new) \<and>
        (\<forall>e \<in> set ((var, resource_name) # sub @ new). rank (fst e) \<le> rank var) \<and>
        filter (\<lambda>e. fst e = var) ((var, resource_name) # sub @ new)
          = map (Pair var) (map fst ((resource_name, handles) # rest))"
        by (auto simp: less_imp_le)
      then show ?thesis by blast
    next
      case (Some ms)
      from True Some 3(6) obtain b where
        b: "Dispatch_members ops normalizer ms handles ?xa = Inr b"
        and rest: "Dispatch ops normalizer var rest b = Inr st'"
        by (cases "Dispatch_members ops normalizer ms handles ?xa") (simp_all add: Let_def)
      from 3(4) [OF refl refl nn Some b tree descends_collection [OF tree True Some]]
      obtain sub where
        sub: "fetched b = fetched ?xa @ sub" and below: "\<forall>e \<in> set sub. rank (fst e) < rank var"
        by blast
      from below have none: "filter (\<lambda>e. fst e = var) sub = []"
        by (auto simp: filter_empty_conv)
      from 3(5) [OF refl refl nn Some b rest tree] obtain new where
        new: "fetched st' = fetched b @ new" "\<forall>e \<in> set new. rank (fst e) \<le> rank var"
          "filter (\<lambda>e. fst e = var) new = map (Pair var) (map fst rest)"
        by blast
      from sub new below none
      have "fetched st' = fetched st @ ((var, resource_name) # sub @ new) \<and>
        (\<forall>e \<in> set ((var, resource_name) # sub @ new). rank (fst e) \<le> rank var) \<and>
        filter (\<lambda>e. fst e = var) ((var, resource_name) # sub @ new)
          = map (Pair var) (map fst ((resource_name, handles) # rest))"
        by (auto simp: less_imp_le)
      then show ?thesis by blast
    qed
  qed
next
  case (4 ops normalizer handles st)
  then show ?case by simp
next
  case (5 ops normalizer member rest handles st)
  from 5(3) obtain s where
    s: "QualifyEachSubquery ops normalizer member handles st = Inr s"
    and rest: "Dispatch_members ops normalizer rest handles s = Inr st'"
    by (cases "QualifyEachSubquery ops normalizer member handles st") simp_all
  from 5(1) [OF s 5(4)] obtain sub where
    sub: "fetched s = fetched st @ sub" "\<forall>e \<in> set sub. rank (fst e) \<le> rank member"
    by blast
  from 5(5) have "rank member < b" and "\<forall>m \<in> set rest. rank m < b" by simp_all
  from 5(2) [OF s rest 5(4) this(2)] obtain new where
    new: "fetched st' = fetched s @ new" "\<forall>e \<in> set new. rank (fst e) < b"
    by blast
  from sub new \<open>rank member < b\<close>
  have "fetched st' = fetched st @ (sub @ new) \<and> (\<forall>e \<in> set (sub @ new). rank (fst e) < b)"
    by auto
  then show ?case by blast
next
  case (6 ops normalizer var handles st)
  show ?case
  proof (cases "QualifyEachSubquery_loop normalizer var handles [] st")
    case (Inl e)
    with 6(2) show ?thesis by (simp add: QualifyEachSubquery.simps)
  next
    case (Inr r)
    obtain q s where r: "r = (q, s)" by (cases r)
    from Inr r have f: "fetched s = fetched st"
      by (simp add: QualifyEachSubquery_loop_fetched)
    show ?thesis
    proof (cases "q = []")
      case True
      with Inr r 6(2) f show ?thesis by (simp add: QualifyEachSubquery.simps)
    next
      case False
      with Inr r 6(2) have "RunRecursive ops normalizer var q s = Inr st'"
        by (simp add: QualifyEachSubquery.simps)
      from 6(1) [OF Inr r [symmetric] False this 6(3)] f show ?thesis by simp
    qed
  qed
qed


lemma size_child:
  "map_of (children r) name = Some c \<Longrightarrow> size c < size r"
proof -
  assume "map_of (children r) name = Some c"
  then have "(name, c) \<in> set (children r)" by (rule map_of_SomeD)
  then have "size c \<le> size_list (size_prod (\<lambda>x. 0) size) (children r)"
    by (intro size_list_estimation' [where x = "(name, c)"]) simp_all
  then show ?thesis by (cases r) simp
qed

lemma size_member:
  "members c = Some ms \<Longrightarrow> m \<in> set ms \<Longrightarrow> size m < size c"
proof -
  assume ms: "members c = Some ms" and m: "m \<in> set ms"
  from m have "size m \<le> size_list size ms"
    by (intro size_list_estimation' [where x = m]) simp_all
  with ms show ?thesis by (cases c) simp
qed

lemma descends_resource_ops: "descends resource_ops size"
  unfolding descends_def
proof (intro allI impI)
  fix v name
  assume obj: "AsObject resource_ops (Get resource_ops v name)"
  show "case AsIterable resource_ops (Get resource_ops v name) of
          None \<Rightarrow> size (Get resource_ops v name) < size v
        | Some collection \<Rightarrow> \<forall>member \<in> set collection. size member < size v"
  proof (cases "map_of (children v) name")
    case None
    with obj show ?thesis by (simp add: resource_ops_def child_def absent_def)
  next
    case (Some c)
    then have c: "Get resource_ops v name = c" by (simp add: resource_ops_def child_def)
    from size_child [OF Some] have lt: "size c < size v" .
    show ?thesis
    proof (cases "members c")
      case None
      with c lt show ?thesis by (simp add: resource_ops_def)
    next
      case (Some ms)
      with c lt size_member [OF Some] show ?thesis
        by (auto simp: resource_ops_def intro: less_trans)
    qed
  qed
qed


text \<open>
  Claim C3. One recursion step is a call of \<^verbatim>\<open>RunRecursive\<close> on a view \<open>v\<close> with the
  active handles \<open>hs\<close>. The map built by \<^verbatim>\<open>DeduplicateExpression\<close> has one entry for
  each distinct node name that the handles demand next, in increasing order. On a
  resource tree, the lookups that the call issues on \<open>v\<close> itself, among all the
  requests of the call and of the recursion below it, are exactly one for each of
  these names, in that order: their number is the number of distinct names, at most
  the number of handles. And running with the handles of one subquery id doubled
  issues the same requests, at every depth.
\<close>

theorem C3_one_fetch_per_distinct_node_name:
  fixes ops :: "'v RedfishVariant_ops" and nz :: "'v \<Rightarrow> Subquery \<Rightarrow> 'r option"
    and st :: "('v, 'r, 't) execution" and rank :: "'v \<Rightarrow> nat"
  assumes tree: "descends ops rank"
    and dedup: "DeduplicateExpression hs = Inr gs"
    and run: "RunRecursive ops nz v hs st = Inr st'"
  shows "sorted_wrt (<) (map fst gs) \<and> set (map fst gs) = next_nodes hs \<and>
     fetched st' = fetched st @ requests_since st st' \<and>
     filter (\<lambda>e. fst e = v) (requests_since st st') = map (Pair v) (map fst gs) \<and>
     length (filter (\<lambda>e. fst e = v) (requests_since st st')) = card (next_nodes hs) \<and>
     card (next_nodes hs) \<le> length hs \<and>
     (subquery_output_by_id (result st) sid = None \<longrightarrow>
        map_sum id fetched
          (RunRecursive ops nz v (twice_handles (\<lambda>sq. subquery_id sq = sid) hs) st)
          = Inr (fetched st'))"
proof -
  from DeduplicateExpression_keys [OF dedup]
  have sorted: "sorted_wrt (<) (map fst gs)" and keys: "set (map fst gs) = next_nodes hs"
    by simp_all
  from sorted have "distinct (map fst gs)"
    using strict_sorted_iff [of "map fst gs"] by blast
  then have card: "length (map fst gs) = card (next_nodes hs)"
    using keys distinct_card [of "map fst gs"] by simp
  have "\<exists>new. fetched st' = fetched st @ new \<and>
      filter (\<lambda>e. fst e = v) new = map (Pair v) (map fst gs)"
  proof (cases "gs = []")
    case True
    with dedup run show ?thesis by (simp add: RunRecursive.simps)
  next
    case False
    with dedup run have "Dispatch ops nz v gs st = Inr st'" by (simp add: RunRecursive.simps)
    from run_requests(2) [OF this tree] show ?thesis by blast
  qed
  then obtain new where new: "fetched st' = fetched st @ new"
    "filter (\<lambda>e. fst e = v) new = map (Pair v) (map fst gs)"
    by blast
  from new(1) have since: "requests_since st st' = new" by (rule requests_since_append)
  have twice: "map_sum id fetched
          (RunRecursive ops nz v (twice_handles (\<lambda>sq. subquery_id sq = sid) hs) st)
          = Inr (fetched st')"
    if fresh: "subquery_output_by_id (result st) sid = None"
  proof -
    have "RunRecursive ops nz v (twice_handles (\<lambda>sq. subquery_id sq = sid) hs)
            (double_bucket sid st) = Inr (double_bucket sid st')"
      using RunRecursive_double_bucket [of ops nz v sid hs st] run by simp
    then have "RunRecursive ops nz v (twice_handles (\<lambda>sq. subquery_id sq = sid) hs) st
        = Inr (double_bucket sid st')"
      by (simp only: double_bucket_fresh [OF fresh])
    moreover have "fetched (double_bucket sid st') = fetched st'"
      by (simp add: double_bucket_def)
    ultimately show ?thesis by simp
  qed
  from sorted keys new since card next_nodes_card [of hs] twice show ?thesis
    by (simp add: card [symmetric])
qed


theorem C3_one_fetch_witness:
  "descends resource_ops size \<and>
   DeduplicateExpression
       [SubqueryHandle sq_status, SubqueryHandle sq_chassis :: resource SubqueryHandle]
     = Inr [(''Chassis'', [SubqueryHandle sq_status, SubqueryHandle sq_chassis])] \<and>
   (\<exists>st'. RunRecursive resource_ops normalize_view service_root
             [SubqueryHandle sq_status, SubqueryHandle sq_chassis]
             (start :: (resource, resource, nat) execution) = Inr st' \<and>
      fetched st'
        = [(service_root, ''Chassis''), (chassis1, ''Status''), (chassis2, ''Status'')] \<and>
      filter (\<lambda>e. fst e = service_root)
          (requests_since (start :: (resource, resource, nat) execution) st')
        = [(service_root, ''Chassis'')] \<and>
      card (next_nodes
              [SubqueryHandle sq_status, SubqueryHandle sq_chassis :: resource SubqueryHandle])
        = 1)"
proof -
  let ?hs = "[SubqueryHandle sq_status, SubqueryHandle sq_chassis :: resource SubqueryHandle]"
  let ?start = "start :: (resource, resource, nat) execution"
  let ?run = "RunRecursive resource_ops normalize_view service_root ?hs ?start"
  have dedup: "DeduplicateExpression ?hs = Inr [(''Chassis'', ?hs)]"
    by (simp add: compile_simps handle_simps DeduplicateExpression_def
          sq_status_def sq_chassis_def)
  have "map_sum id fetched ?run
      = Inr [(service_root, ''Chassis''), (chassis1, ''Status''), (chassis2, ''Status'')]"
    by (simp add: compile_simps handle_simps run_simps example_simps)
  then obtain st' where run: "?run = Inr st'"
    and log: "fetched st'
       = [(service_root, ''Chassis''), (chassis1, ''Status''), (chassis2, ''Status'')]"
    by (cases ?run) auto
  from C3_one_fetch_per_distinct_node_name [OF descends_resource_ops dedup run]
  have "filter (\<lambda>e. fst e = service_root) (requests_since ?start st')
          = map (Pair service_root) (map fst [(''Chassis'', ?hs)])"
    and "length (filter (\<lambda>e. fst e = service_root) (requests_since ?start st'))
          = card (next_nodes ?hs)"
    by blast+
  then have "filter (\<lambda>e. fst e = service_root) (requests_since ?start st')
          = [(service_root, ''Chassis'')]"
    and "card (next_nodes ?hs) = 1"
    by simp_all
  with descends_resource_ops dedup run log show ?thesis by blast
qed

end
